theory Spec2Isabelle
  imports Complex_Main "HOL-Library.Word"
begin

unbundle bit_operations_syntax

section \<open>The TTL cache (src/lib/cache/cache-manager.ts)\<close>

subsection \<open>Data model\<close>

text \<open>
  \<^verbatim>\<open>interface CacheEntry { data: T; expires: number; size: number }\<close>.
  Time stamps are the integral milliseconds of \<^verbatim>\<open>Date.now()\<close>; the field
  \<^verbatim>\<open>size\<close> is called \<open>esize\<close> here.
\<close>

record 'v CacheEntry =
  data :: 'v
  expires :: int
  esize :: nat

text \<open>
  \<^verbatim>\<open>interface CacheStats { size; hitRate; entries; memoryUsage }\<close>; the field
  \<^verbatim>\<open>size\<close> is called \<open>total_size\<close> here.
\<close>

record CacheStats =
  total_size :: nat
  hitRate :: rat
  entries :: nat
  memoryUsage :: nat

text \<open>
  The private fields of the class. A JavaScript \<^verbatim>\<open>Map\<close> iterates in insertion order,
  and \<^verbatim>\<open>cleanup\<close> sorts the entries with a stable sort, so the map is an association
  list in insertion order.
\<close>

record 'v CacheManager =
  cache :: "(string \<times> 'v CacheEntry) list"
  hits :: nat
  misses :: nat

definition new_CacheManager :: "'v CacheManager" where
  "new_CacheManager = \<lparr>cache = [], hits = 0, misses = 0\<rparr>"

subsection \<open>The operations of Map that the class uses\<close>

definition Map_get :: "('k \<times> 'e) list \<Rightarrow> 'k \<Rightarrow> 'e option" where
  "Map_get m k = map_of m k"

text \<open>\<^verbatim>\<open>Map.set\<close> replaces the value of a present key where it stands and appends a new key.\<close>

fun Map_set :: "'k \<Rightarrow> 'e \<Rightarrow> ('k \<times> 'e) list \<Rightarrow> ('k \<times> 'e) list" where
  "Map_set k v [] = [(k, v)]"
| "Map_set k v (p # ps) = (if fst p = k then (k, v) # ps else p # Map_set k v ps)"

definition Map_delete :: "'k \<Rightarrow> ('k \<times> 'e) list \<Rightarrow> ('k \<times> 'e) list" where
  "Map_delete k m = filter (\<lambda>p. fst p \<noteq> k) m"

text \<open>\<^verbatim>\<open>keys.forEach(key => this.cache.delete(key))\<close>\<close>

definition delete_each :: "'k list \<Rightarrow> ('k \<times> 'e) list \<Rightarrow> ('k \<times> 'e) list" where
  "delete_each ks m = fold Map_delete ks m"

text \<open>The keys of a map are pairwise different.\<close>

definition Map_ok :: "('k \<times> 'e) list \<Rightarrow> bool" where
  "Map_ok m = distinct (map fst m)"

subsection \<open>The methods\<close>

definition isExpired :: "'v CacheEntry \<Rightarrow> int \<Rightarrow> bool" where
  "isExpired entry now = (expires entry < now)"

text \<open>
  \<^verbatim>\<open>JSON.stringify\<close> is a parameter: \<open>None\<close> stands for a call that throws (or returns
  \<^verbatim>\<open>undefined\<close>, whose \<^verbatim>\<open>.length\<close> throws).
\<close>

definition calculateSize :: "('v \<Rightarrow> string option) \<Rightarrow> 'v \<Rightarrow> nat" where
  "calculateSize stringify d = (case stringify d of Some s \<Rightarrow> length s | None \<Rightarrow> 1000)"

text \<open>
  The values that a caller stores and gets back: \<^verbatim>\<open>null\<close> is a value like any other.
\<close>

datatype 'a nullable = Null | Value 'a

text \<open>
  \<^verbatim>\<open>get\<close> returns \<^verbatim>\<open>null\<close> in its two miss branches and \<^verbatim>\<open>entry.data\<close> itself in the
  hit branch, so a stored \<^verbatim>\<open>null\<close> comes back as \<^verbatim>\<open>null\<close>. \<open>now\<close> is the value of
  \<^verbatim>\<open>Date.now()\<close> read by \<^verbatim>\<open>isExpired\<close>.
\<close>

definition get ::
  "'a nullable CacheManager \<Rightarrow> int \<Rightarrow> string \<Rightarrow> 'a nullable \<times> 'a nullable CacheManager"
where
  "get c now key =
     (case Map_get (cache c) key of
        None \<Rightarrow> (Null, c\<lparr>misses := misses c + 1\<rparr>)
      | Some entry \<Rightarrow>
          if isExpired entry now
          then (Null, c\<lparr>cache := Map_delete key (cache c), misses := misses c + 1\<rparr>)
          else (data entry, c\<lparr>hits := hits c + 1\<rparr>))"

text \<open>
  \<^verbatim>\<open>cleanup\<close>: first every key of an entry with \<^verbatim>\<open>entry.expires < now\<close> is deleted;
  then, if more than 1000 entries are left, the entries are sorted by \<^verbatim>\<open>expires\<close> (the
  sort of an array is stable) and the keys of the first 100 are deleted.
\<close>

definition keysToDelete :: "(string \<times> 'v CacheEntry) list \<Rightarrow> int \<Rightarrow> string list" where
  "keysToDelete m now = map fst (filter (\<lambda>p. expires (snd p) < now) m)"

definition toRemove :: "(string \<times> 'v CacheEntry) list \<Rightarrow> (string \<times> 'v CacheEntry) list" where
  "toRemove m = take 100 (sort_key (\<lambda>p. expires (snd p)) m)"

definition cleanup :: "'v CacheManager \<Rightarrow> int \<Rightarrow> 'v CacheManager" where
  "cleanup c now =
     (let m1 = delete_each (keysToDelete (cache c) now) (cache c);
          m2 = (if length m1 > 1000 then delete_each (map fst (toRemove m1)) m1 else m1)
      in c\<lparr>cache := m2\<rparr>)"

text \<open>
  \<^verbatim>\<open>set\<close> reads the clock twice: \<open>now\<close> for the expiry time of the new entry and
  \<open>now'\<close> inside \<^verbatim>\<open>cleanup\<close>. \<open>ttl\<close> is in seconds; a call without it passes 3600.
\<close>

definition set_item ::
  "('v \<Rightarrow> string option) \<Rightarrow> 'v CacheManager \<Rightarrow> int \<Rightarrow> int \<Rightarrow> string \<Rightarrow> 'v \<Rightarrow> int \<Rightarrow> 'v CacheManager"
where
  "set_item stringify c now now' key d ttl =
     (let entry = \<lparr>data = d, expires = now + ttl * 1000, esize = calculateSize stringify d\<rparr>
      in cleanup (c\<lparr>cache := Map_set key entry (cache c)\<rparr>) now')"

definition delete :: "'v CacheManager \<Rightarrow> string \<Rightarrow> bool \<times> 'v CacheManager" where
  "delete c key = (key \<in> fst ` set (cache c), c\<lparr>cache := Map_delete key (cache c)\<rparr>)"

text \<open>
  \<^verbatim>\<open>clear\<close>: without a prefix (or with the empty string, which is falsy) the map is
  emptied; otherwise the keys that start with the prefix are deleted.
\<close>

definition startsWith :: "string \<Rightarrow> string \<Rightarrow> bool" where
  "startsWith key prefix = (take (length prefix) key = prefix)"

definition clear :: "'v CacheManager \<Rightarrow> string option \<Rightarrow> 'v CacheManager" where
  "clear c prefix =
     (case prefix of
        None \<Rightarrow> c\<lparr>cache := []\<rparr>
      | Some p \<Rightarrow>
          if p = [] then c\<lparr>cache := []\<rparr>
          else c\<lparr>cache := delete_each (filter (\<lambda>key. startsWith key p) (map fst (cache c))) (cache c)\<rparr>)"

definition has :: "'v CacheManager \<Rightarrow> int \<Rightarrow> string \<Rightarrow> bool" where
  "has c now key =
     (case Map_get (cache c) key of Some entry \<Rightarrow> \<not> isExpired entry now | None \<Rightarrow> False)"

text \<open>
  \<^verbatim>\<open>getStats\<close>: \<open>heapUsed\<close> is what \<^verbatim>\<open>process.memoryUsage?.().heapUsed\<close> gives
  (\<open>None\<close> where it is undefined), the quotient of the two counters is a rational.
\<close>

definition getStats :: "'v CacheManager \<Rightarrow> int \<Rightarrow> nat option \<Rightarrow> CacheStats" where
  "getStats c now heapUsed =
     (let live = filter (\<lambda>entry. \<not> isExpired entry now) (map snd (cache c));
          totalSize = fold (\<lambda>entry acc. acc + esize entry) live 0;
          validEntries = fold (\<lambda>entry acc. acc + 1) live 0;
          totalRequests = hits c + misses c
      in \<lparr>total_size = totalSize,
          hitRate = (if totalRequests > 0 then of_nat (hits c) / of_nat totalRequests else 0),
          entries = validEntries,
          memoryUsage = (case heapUsed of Some h \<Rightarrow> h | None \<Rightarrow> 0)\<rparr>)"

subsection \<open>Auxiliary notions for the statements\<close>

text \<open>The entries that the loop of \<^verbatim>\<open>getStats\<close> counts at time \<open>now\<close>.\<close>

definition live :: "'v CacheManager \<Rightarrow> int \<Rightarrow> 'v CacheEntry list" where
  "live c now = filter (\<lambda>entry. \<not> isExpired entry now) (map snd (cache c))"

text \<open>
  The map inside \<^verbatim>\<open>set\<close> after the insertion and the first phase of \<^verbatim>\<open>cleanup\<close>
  (the deletion of the expired keys), where the size is compared with 1000.
\<close>

definition swept ::
  "('v \<Rightarrow> string option) \<Rightarrow> 'v CacheManager \<Rightarrow> int \<Rightarrow> int \<Rightarrow> string \<Rightarrow> 'v \<Rightarrow> int
    \<Rightarrow> (string \<times> 'v CacheEntry) list"
where
  "swept stringify c now now' key d ttl =
     (let entry = \<lparr>data = d, expires = now + ttl * 1000, esize = calculateSize stringify d\<rparr>;
          m = Map_set key entry (cache c)
      in delete_each (keysToDelete m now') m)"

text \<open>
  A call of \<^verbatim>\<open>set\<close> with the two clock readings it makes, the entry it inserts, and a
  sequence of calls.
\<close>

record 'v set_call =
  at_insert :: int
  at_cleanup :: int
  call_key :: string
  call_data :: 'v
  call_ttl :: int

definition call_entry :: "('v \<Rightarrow> string option) \<Rightarrow> 'v set_call \<Rightarrow> string \<times> 'v CacheEntry" where
  "call_entry stringify a =
     (call_key a, \<lparr>data = call_data a, expires = at_insert a + call_ttl a * 1000,
                   esize = calculateSize stringify (call_data a)\<rparr>)"

definition set_calls ::
  "('v \<Rightarrow> string option) \<Rightarrow> 'v CacheManager \<Rightarrow> 'v set_call list \<Rightarrow> 'v CacheManager"
where
  "set_calls stringify c calls =
     foldl (\<lambda>c a. set_item stringify c (at_insert a) (at_cleanup a) (call_key a) (call_data a) (call_ttl a))
       c calls"

subsection \<open>Example states\<close>

text \<open>
  The values are \<^verbatim>\<open>null\<close>, \<^verbatim>\<open>true\<close> and \<^verbatim>\<open>false\<close>, with what \<^verbatim>\<open>JSON.stringify\<close>
  writes for them. A small cache with the entries \<open>a\<close>, expiring at time 10, and \<open>b\<close>,
  expiring at time 30, and a cache that holds \<^verbatim>\<open>null\<close> under the key \<open>a\<close>.
\<close>

definition stringify_bool :: "bool nullable \<Rightarrow> string option" where
  "stringify_bool d =
     Some (case d of Null \<Rightarrow> ''null'' | Value b \<Rightarrow> if b then ''true'' else ''false'')"

definition example_cache :: "bool nullable CacheManager" where
  "example_cache =
     \<lparr>cache = [(''a'', \<lparr>data = Value True, expires = 10, esize = 4\<rparr>),
               (''b'', \<lparr>data = Value True, expires = 30, esize = 4\<rparr>)],
      hits = 0, misses = 0\<rparr>"

definition null_cache :: "bool nullable CacheManager" where
  "null_cache = \<lparr>cache = [(''a'', \<lparr>data = Null, expires = 10, esize = 4\<rparr>)], hits = 0, misses = 0\<rparr>"

text \<open>
  A cache holding 1000 entries that expire at time 5000000, under the keys made of \<open>i\<close>
  letters \<open>k\<close> for \<open>i\<close> below 1000, and the same cache with the first entry expiring at
  time 1 instead.
\<close>

definition filler :: "nat \<Rightarrow> string \<times> bool nullable CacheEntry" where
  "filler i = (replicate i CHR ''k'', \<lparr>data = Value True, expires = 5000000, esize = 4\<rparr>)"

definition full_cache :: "bool nullable CacheManager" where
  "full_cache = \<lparr>cache = map filler [0..<1000], hits = 0, misses = 0\<rparr>"

definition stale_cache :: "bool nullable CacheManager" where
  "stale_cache =
     \<lparr>cache = ([], \<lparr>data = Value True, expires = 1, esize = 4\<rparr>) # map filler [1..<1000],
      hits = 0, misses = 0\<rparr>"

text \<open>1001 calls of \<^verbatim>\<open>set\<close> at time 0 with different keys and the lifetimes 1, 2, ... seconds.\<close>

definition many_calls :: "bool nullable set_call list" where
  "many_calls =
     map (\<lambda>i. \<lparr>at_insert = 0, at_cleanup = 0, call_key = replicate i CHR ''k'', call_data = Value True,
                call_ttl = int i + 1\<rparr>) [0..<1001]"

section \<open>The token cipher (src/lib/security/token-encryption.ts)\<close>

subsection \<open>Bytes, strings and buffers\<close>

text \<open>
  A \<^verbatim>\<open>Buffer\<close> is a list of bytes; a JavaScript string is a list of UTF-16 code units.
  \<open>js\<close> writes a string literal of the source (Latin-1 characters) as such a list.
\<close>

type_synonym byte = "8 word"
type_synonym jsstring = "16 word list"

definition js :: "string \<Rightarrow> jsstring" where
  "js s = map of_char s"

text \<open>
  \<^verbatim>\<open>buf.subarray(start, end)\<close>: a negative index counts from the end, both indices are
  clamped to the buffer, and the result is empty when the end is not after the start.
\<close>

definition rel_index :: "nat \<Rightarrow> int \<Rightarrow> nat" where
  "rel_index n i = (if i < 0 then nat (max (int n + i) 0) else min (nat i) n)"

definition subarray :: "byte list \<Rightarrow> int \<Rightarrow> int \<Rightarrow> byte list" where
  "subarray b start end =
     (let s = rel_index (length b) start; e = rel_index (length b) end
      in take (e - s) (drop s b))"

subsection \<open>The encodings of Buffer: hex, base64, utf8\<close>

text \<open>
  None of the encodings is code of the repository; they are modelled after what Node's
  \<^verbatim>\<open>Buffer\<close> does, with the character codes as numbers. Hexadecimal: two lower-case
  digits for each byte; decoding reads pairs of digits of either case and stops at the
  first pair that is not one.
\<close>

definition hex_digit :: "nat \<Rightarrow> 16 word" where
  "hex_digit n = of_nat (if n < 10 then 48 + n else 87 + n)"

definition hex_encode :: "byte list \<Rightarrow> jsstring" where
  "hex_encode bs = concat (map (\<lambda>b. [hex_digit (unat b div 16), hex_digit (unat b mod 16)]) bs)"

definition unhex :: "16 word \<Rightarrow> nat option" where
  "unhex c =
     (if 48 \<le> unat c \<and> unat c \<le> 57 then Some (unat c - 48)
      else if 97 \<le> unat c \<and> unat c \<le> 102 then Some (unat c - 87)
      else if 65 \<le> unat c \<and> unat c \<le> 70 then Some (unat c - 55)
      else None)"

fun hex_decode :: "jsstring \<Rightarrow> byte list" where
  "hex_decode (h # l # r) =
     (case (unhex h, unhex l) of
        (Some x, Some y) \<Rightarrow> of_nat (16 * x + y) # hex_decode r
      | _ \<Rightarrow> [])"
| "hex_decode _ = []"

text \<open>
  Base64 (RFC 4648): \<^verbatim>\<open>buf.toString('base64')\<close> writes the standard alphabet with
  \<^verbatim>\<open>=\<close> padding. \<^verbatim>\<open>Buffer.from(s, 'base64')\<close> never throws: it reads each code unit
  of the string by its low byte, stops at the first \<^verbatim>\<open>=\<close>, skips every other character
  outside the alphabet (the URL-safe \<^verbatim>\<open>-\<close> and \<^verbatim>\<open>_\<close> count as 62 and 63), and turns
  each four digits into three bytes, two remaining digits into one byte and three into two.
\<close>

definition base64_digit :: "nat \<Rightarrow> 16 word" where
  "base64_digit n =
     of_nat (if n < 26 then 65 + n
             else if n < 52 then 71 + n
             else if n < 62 then n - 4
             else if n = 62 then 43 else 47)"

fun base64_encode :: "byte list \<Rightarrow> jsstring" where
  "base64_encode (a # b # c # r) =
     [base64_digit (unat a div 4),
      base64_digit ((unat a mod 4) * 16 + unat b div 16),
      base64_digit ((unat b mod 16) * 4 + unat c div 64),
      base64_digit (unat c mod 64)] @ base64_encode r"
| "base64_encode [a, b] =
     [base64_digit (unat a div 4),
      base64_digit ((unat a mod 4) * 16 + unat b div 16),
      base64_digit ((unat b mod 16) * 4), 61]"
| "base64_encode [a] =
     [base64_digit (unat a div 4), base64_digit ((unat a mod 4) * 16), 61, 61]"
| "base64_encode [] = []"

definition low_byte :: "16 word \<Rightarrow> nat" where
  "low_byte c = unat c mod 256"

definition unbase64 :: "16 word \<Rightarrow> nat option" where
  "unbase64 c =
     (if 65 \<le> low_byte c \<and> low_byte c \<le> 90 then Some (low_byte c - 65)
      else if 97 \<le> low_byte c \<and> low_byte c \<le> 122 then Some (low_byte c - 71)
      else if 48 \<le> low_byte c \<and> low_byte c \<le> 57 then Some (low_byte c + 4)
      else if low_byte c = 43 \<or> low_byte c = 45 then Some 62
      else if low_byte c = 47 \<or> low_byte c = 95 then Some 63
      else None)"

definition base64_digits :: "jsstring \<Rightarrow> nat list" where
  "base64_digits s = List.map_filter unbase64 (takeWhile (\<lambda>c. low_byte c \<noteq> 61) s)"

fun base64_bytes :: "nat list \<Rightarrow> byte list" where
  "base64_bytes (s0 # s1 # s2 # s3 # r) =
     [of_nat (s0 * 4 + s1 div 16), of_nat ((s1 mod 16) * 16 + s2 div 4), of_nat ((s2 mod 4) * 64 + s3)]
     @ base64_bytes r"
| "base64_bytes [s0, s1, s2] = [of_nat (s0 * 4 + s1 div 16), of_nat ((s1 mod 16) * 16 + s2 div 4)]"
| "base64_bytes [s0, s1] = [of_nat (s0 * 4 + s1 div 16)]"
| "base64_bytes _ = []"

definition base64_decode :: "jsstring \<Rightarrow> byte list" where
  "base64_decode s = base64_bytes (base64_digits s)"

text \<open>
  UTF-8. Encoding a string reads its code units as code points (a surrogate pair is one
  code point, a lone surrogate becomes U+FFFD) and writes one to four bytes for each.
\<close>

definition is_high :: "16 word \<Rightarrow> bool" where
  "is_high u = (0xD800 \<le> unat u \<and> unat u \<le> 0xDBFF)"

definition is_low :: "16 word \<Rightarrow> bool" where
  "is_low u = (0xDC00 \<le> unat u \<and> unat u \<le> 0xDFFF)"

fun code_points :: "jsstring \<Rightarrow> nat list" where
  "code_points [] = []"
| "code_points (u # us) =
     (if is_high u then
        (case us of
           [] \<Rightarrow> [0xFFFD]
         | l # r \<Rightarrow>
             if is_low l
             then (0x10000 + (unat u - 0xD800) * 0x400 + (unat l - 0xDC00)) # code_points r
             else 0xFFFD # code_points us)
      else if is_low u then 0xFFFD # code_points us
      else unat u # code_points us)"

definition utf8_bytes :: "nat \<Rightarrow> byte list" where
  "utf8_bytes cp =
     (if cp < 0x80 then [of_nat cp]
      else if cp < 0x800 then [of_nat (0xC0 + cp div 64), of_nat (0x80 + cp mod 64)]
      else if cp < 0x10000 then
        [of_nat (0xE0 + cp div 4096), of_nat (0x80 + cp div 64 mod 64), of_nat (0x80 + cp mod 64)]
      else
        [of_nat (0xF0 + cp div 262144), of_nat (0x80 + cp div 4096 mod 64),
         of_nat (0x80 + cp div 64 mod 64), of_nat (0x80 + cp mod 64)])"

definition utf8_encode :: "jsstring \<Rightarrow> byte list" where
  "utf8_encode s = concat (map utf8_bytes (code_points s))"

text \<open>
  Decoding never fails: a byte sequence that is not the UTF-8 form of a code point gives
  U+FFFD for its longest prefix that could start one, and decoding goes on after it.
  \<open>cont lo hi b\<close> says that \<open>b\<close> is a continuation byte in the given range.
\<close>

definition cont :: "nat \<Rightarrow> nat \<Rightarrow> byte \<Rightarrow> bool" where
  "cont lo hi b = (lo \<le> unat b \<and> unat b \<le> hi)"

fun utf8_points :: "byte list \<Rightarrow> nat list" where
  "utf8_points [] = []"
| "utf8_points (b0 # bs) =
     (if unat b0 < 0x80 then unat b0 # utf8_points bs
      else if 0xC2 \<le> unat b0 \<and> unat b0 \<le> 0xDF then
        (case bs of
           [] \<Rightarrow> [0xFFFD]
         | b1 # r1 \<Rightarrow>
             if cont 0x80 0xBF b1
             then ((unat b0 - 0xC0) * 64 + (unat b1 - 0x80)) # utf8_points r1
             else 0xFFFD # utf8_points bs)
      else if 0xE0 \<le> unat b0 \<and> unat b0 \<le> 0xEF then
        (case bs of
           [] \<Rightarrow> [0xFFFD]
         | b1 # r1 \<Rightarrow>
             if cont (if unat b0 = 0xE0 then 0xA0 else 0x80) (if unat b0 = 0xED then 0x9F else 0xBF) b1
             then
               (case r1 of
                  [] \<Rightarrow> [0xFFFD]
                | b2 # r2 \<Rightarrow>
                    if cont 0x80 0xBF b2
                    then ((unat b0 - 0xE0) * 4096 + (unat b1 - 0x80) * 64 + (unat b2 - 0x80))
                           # utf8_points r2
                    else 0xFFFD # utf8_points r1)
             else 0xFFFD # utf8_points bs)
      else if 0xF0 \<le> unat b0 \<and> unat b0 \<le> 0xF4 then
        (case bs of
           [] \<Rightarrow> [0xFFFD]
         | b1 # r1 \<Rightarrow>
             if cont (if unat b0 = 0xF0 then 0x90 else 0x80) (if unat b0 = 0xF4 then 0x8F else 0xBF) b1
             then
               (case r1 of
                  [] \<Rightarrow> [0xFFFD]
                | b2 # r2 \<Rightarrow>
                    if cont 0x80 0xBF b2
                    then
                      (case r2 of
                         [] \<Rightarrow> [0xFFFD]
                       | b3 # r3 \<Rightarrow>
                           if cont 0x80 0xBF b3
                           then ((unat b0 - 0xF0) * 262144 + (unat b1 - 0x80) * 4096
                                  + (unat b2 - 0x80) * 64 + (unat b3 - 0x80)) # utf8_points r3
                           else 0xFFFD # utf8_points r2)
                    else 0xFFFD # utf8_points r1)
             else 0xFFFD # utf8_points bs)
      else 0xFFFD # utf8_points bs)"

definition utf16_units :: "nat \<Rightarrow> 16 word list" where
  "utf16_units cp =
     (if cp < 0x10000 then [of_nat cp]
      else [of_nat (0xD800 + (cp - 0x10000) div 0x400), of_nat (0xDC00 + (cp - 0x10000) mod 0x400)])"

definition utf8_decode :: "byte list \<Rightarrow> jsstring" where
  "utf8_decode bs = concat (map utf16_units (utf8_points bs))"

text \<open>A string is well formed when it has no lone surrogate: then it has a UTF-8 form.\<close>

fun well_formed :: "jsstring \<Rightarrow> bool" where
  "well_formed [] = True"
| "well_formed (u # us) =
     (if is_high u then (case us of [] \<Rightarrow> False | l # r \<Rightarrow> is_low l \<and> well_formed r)
      else \<not> is_low u \<and> well_formed us)"

text \<open>The code points that have a UTF-8 form: up to U+10FFFF, without the surrogates.\<close>

definition scalar :: "nat \<Rightarrow> bool" where
  "scalar cp = (cp < 0x110000 \<and> \<not> (0xD800 \<le> cp \<and> cp \<le> 0xDFFF))"

subsection \<open>The primitives of Node's crypto module\<close>

text \<open>
  SHA-256 and AES-256-GCM are not code of the repository. The model keeps the structure of
  GCM and leaves the functions open: the digest is some 256-bit value of the bytes hashed;
  the cipher is a counter mode, so each ciphertext byte is the plaintext byte XOR a key
  stream byte fixed by key, nonce and position; the tag is some 128-bit value of key, nonce
  and ciphertext. \<^verbatim>\<open>randomBytes(n)\<close> is read from a source \<open>rnd\<close> that stands for the
  outcome of the call.
\<close>

record primitives =
  sha256 :: "byte list \<Rightarrow> 256 word"
  keystream :: "byte list \<Rightarrow> byte list \<Rightarrow> nat \<Rightarrow> byte"
  gcm_tag :: "byte list \<Rightarrow> byte list \<Rightarrow> byte list \<Rightarrow> 128 word"

text \<open>The \<open>n\<close> low bytes of a word, the most significant first.\<close>

definition word_bytes :: "nat \<Rightarrow> 'a::len word \<Rightarrow> byte list" where
  "word_bytes n w = map (\<lambda>i. ucast (drop_bit (8 * (n - 1 - i)) w)) [0..<n]"

definition randomBytes :: "(nat \<Rightarrow> byte) \<Rightarrow> nat \<Rightarrow> byte list" where
  "randomBytes rnd n = map rnd [0..<n]"

text \<open>\<^verbatim>\<open>createHash('sha256').update(s).digest()\<close>: a string is hashed in its UTF-8 form.\<close>

definition sha256_digest :: "primitives \<Rightarrow> jsstring \<Rightarrow> byte list" where
  "sha256_digest P s = word_bytes 32 (sha256 P (utf8_encode s))"

text \<open>
  The exceptions of the cipher objects: \<^verbatim>\<open>createCipheriv\<close> and \<^verbatim>\<open>createDecipheriv\<close>
  reject a key that is not 32 bytes long and an empty nonce, \<^verbatim>\<open>setAuthTag\<close> rejects a tag
  whose length is not 4, 8 or 12 to 16, and \<^verbatim>\<open>decipher.final\<close> throws when the tag it was
  given is not the tag of the ciphertext, cut to the given length.
\<close>

datatype error = InvalidKeyLength | InvalidIV | InvalidAuthTagLength | AuthenticationFailed

definition createCipheriv :: "byte list \<Rightarrow> byte list \<Rightarrow> error + unit" where
  "createCipheriv key iv =
     (if length key \<noteq> 32 then Inl InvalidKeyLength else if iv = [] then Inl InvalidIV else Inr ())"

definition createDecipheriv :: "byte list \<Rightarrow> byte list \<Rightarrow> error + unit" where
  "createDecipheriv key iv = createCipheriv key iv"

definition setAuthTag :: "byte list \<Rightarrow> error + unit" where
  "setAuthTag tag =
     (if length tag = 4 \<or> length tag = 8 \<or> (12 \<le> length tag \<and> length tag \<le> 16) then Inr ()
      else Inl InvalidAuthTagLength)"

text \<open>
  The bytes that \<^verbatim>\<open>update\<close> and \<^verbatim>\<open>final\<close> of a cipher or decipher object give
  together (\<^verbatim>\<open>final\<close> gives none in this mode), and \<^verbatim>\<open>cipher.getAuthTag()\<close>.
\<close>

definition gcm_crypt :: "primitives \<Rightarrow> byte list \<Rightarrow> byte list \<Rightarrow> byte list \<Rightarrow> byte list" where
  "gcm_crypt P key iv bs = map (\<lambda>(b, i). b XOR keystream P key iv i) (zip bs [0..<length bs])"

definition getAuthTag :: "primitives \<Rightarrow> byte list \<Rightarrow> byte list \<Rightarrow> byte list \<Rightarrow> byte list" where
  "getAuthTag P key iv ct = word_bytes 16 (gcm_tag P key iv ct)"

definition decipher_final ::
  "primitives \<Rightarrow> byte list \<Rightarrow> byte list \<Rightarrow> byte list \<Rightarrow> byte list \<Rightarrow> error + unit" where
  "decipher_final P key iv ct tag =
     (if take (length tag) (getAuthTag P key iv ct) = tag then Inr () else Inl AuthenticationFailed)"

subsection \<open>The class TokenEncryption\<close>

definition IV_LENGTH :: nat where "IV_LENGTH = 12"
definition TAG_LENGTH :: nat where "TAG_LENGTH = 16"

definition fallbackKey :: jsstring where
  "fallbackKey = js ''figma-converter-dev-key-2024''"

text \<open>
  \<^verbatim>\<open>getEncryptionKey\<close>: \<open>keyFromEnv\<close> is \<^verbatim>\<open>process.env.ENCRYPTION_KEY\<close>, \<open>None\<close> when
  it is not set; an empty string is falsy as well. The warning written to the console is
  not modelled.
\<close>

definition getEncryptionKey :: "primitives \<Rightarrow> jsstring option \<Rightarrow> byte list" where
  "getEncryptionKey P keyFromEnv =
     (case keyFromEnv of
        Some k \<Rightarrow> if k \<noteq> [] then sha256_digest P k else sha256_digest P fallbackKey
      | None \<Rightarrow> sha256_digest P fallbackKey)"

text \<open>
  \<^verbatim>\<open>encrypt\<close>: the body of the \<^verbatim>\<open>try\<close> block, with an exception as \<open>Inl\<close>, and the
  method with its \<^verbatim>\<open>catch\<close>, which returns the token. The hex string collects
  \<^verbatim>\<open>cipher.update(token, 'utf8', 'hex')\<close> and \<^verbatim>\<open>cipher.final('hex')\<close>.
\<close>

definition encrypt_body ::
  "primitives \<Rightarrow> jsstring option \<Rightarrow> (nat \<Rightarrow> byte) \<Rightarrow> jsstring \<Rightarrow> error + jsstring" where
  "encrypt_body P env rnd token =
     (let key = getEncryptionKey P env;
          iv = randomBytes rnd IV_LENGTH
      in case createCipheriv key iv of
           Inl e \<Rightarrow> Inl e
         | Inr _ \<Rightarrow>
             let encrypted = hex_encode (gcm_crypt P key iv (utf8_encode token)) @ hex_encode [];
                 authTag = getAuthTag P key iv (gcm_crypt P key iv (utf8_encode token));
                 combined = iv @ hex_decode encrypted @ authTag
             in Inr (base64_encode combined))"

definition encrypt :: "primitives \<Rightarrow> jsstring option \<Rightarrow> (nat \<Rightarrow> byte) \<Rightarrow> jsstring \<Rightarrow> jsstring" where
  "encrypt P env rnd token =
     (case encrypt_body P env rnd token of Inr c \<Rightarrow> c | Inl e \<Rightarrow> token)"

text \<open>
  \<^verbatim>\<open>decrypt\<close>, in the same way. The string is the UTF-8 decoding of the bytes that
  \<^verbatim>\<open>decipher.update\<close> and \<^verbatim>\<open>decipher.final\<close> give; \<^verbatim>\<open>final\<close> throws when the tag
  does not match, and then nothing is returned from the \<^verbatim>\<open>try\<close> block.
\<close>

definition decrypt_body :: "primitives \<Rightarrow> jsstring option \<Rightarrow> jsstring \<Rightarrow> error + jsstring" where
  "decrypt_body P env encryptedToken =
     (let key = getEncryptionKey P env;
          combined = base64_decode encryptedToken;
          iv = subarray combined 0 (int IV_LENGTH);
          authTag = subarray combined (- int TAG_LENGTH) (int (length combined));
          encrypted = subarray combined (int IV_LENGTH) (- int TAG_LENGTH)
      in case createDecipheriv key iv of
           Inl e \<Rightarrow> Inl e
         | Inr _ \<Rightarrow>
             (case setAuthTag authTag of
                Inl e \<Rightarrow> Inl e
              | Inr _ \<Rightarrow>
                  (case decipher_final P key iv encrypted authTag of
                     Inl e \<Rightarrow> Inl e
                   | Inr _ \<Rightarrow> Inr (utf8_decode (gcm_crypt P key iv encrypted)))))"

definition decrypt :: "primitives \<Rightarrow> jsstring option \<Rightarrow> jsstring \<Rightarrow> jsstring" where
  "decrypt P env encryptedToken =
     (case decrypt_body P env encryptedToken of Inr s \<Rightarrow> s | Inl e \<Rightarrow> encryptedToken)"

text \<open>
  \<^verbatim>\<open>isEncrypted\<close>: decoding base64 does not throw, so the \<^verbatim>\<open>catch\<close> branch is never
  taken.
\<close>

definition isEncrypted :: "jsstring \<Rightarrow> bool" where
  "isEncrypted token =
     (let decoded = base64_decode token;
          minimumLength = IV_LENGTH + TAG_LENGTH + 1
      in length decoded \<ge> minimumLength)"

text \<open>Example primitives and an example outcome of \<^verbatim>\<open>randomBytes\<close>, for concrete runs.\<close>

definition example_primitives :: primitives where
  "example_primitives =
     \<lparr>sha256 = (\<lambda>bs. of_nat (length bs)),
      keystream = (\<lambda>key iv i. 42),
      gcm_tag = (\<lambda>key iv ct. of_nat (length ct))\<rparr>"

definition example_rnd :: "nat \<Rightarrow> byte" where
  "example_rnd i = 7"

section \<open>Properties of the cache\<close>

subsection \<open>The map operations\<close>

lemma delete_each_filter: "delete_each ks m = filter (\<lambda>p. fst p \<notin> set ks) m"
  unfolding delete_each_def
proof (induction ks arbitrary: m)
  case Nil
  show ?case by simp
next
  case (Cons k ks)
  have "fold Map_delete (k # ks) m = filter (\<lambda>p. fst p \<notin> set ks) (Map_delete k m)"
    by (simp add: Cons.IH)
  also have "\<dots> = filter (\<lambda>p. fst p \<notin> set (k # ks)) m"
    by (simp add: Map_delete_def conj_commute)
  finally show ?case .
qed

lemma Map_get_delete: "Map_get (Map_delete k m) k' = (if k' = k then None else Map_get m k')"
  unfolding Map_get_def Map_delete_def
  by (induction m) auto

lemma Map_get_set: "Map_get (Map_set k v m) k' = (if k' = k then Some v else Map_get m k')"
  unfolding Map_get_def
  by (induction m) auto

lemma keys_Map_set: "fst ` set (Map_set k v m) = insert k (fst ` set m)"
  by (induction m) auto

lemma keys_Map_delete: "fst ` set (Map_delete k m) = fst ` set m - {k}"
  unfolding Map_delete_def by auto

lemma Map_set_fresh: "k \<notin> fst ` set m \<Longrightarrow> Map_set k v m = m @ [(k, v)]"
  by (induction m) auto

lemma Map_get_member: "Map_ok m \<Longrightarrow> Map_get m k = Some e \<longleftrightarrow> (k, e) \<in> set m"
  unfolding Map_ok_def Map_get_def by (rule map_of_eq_Some_iff)

lemma Map_get_absent: "Map_get m k = None \<longleftrightarrow> k \<notin> fst ` set m"
  unfolding Map_get_def by (rule map_of_eq_None_iff)

lemma Map_ok_distinct: "Map_ok m \<Longrightarrow> distinct m"
  unfolding Map_ok_def by (simp add: distinct_map)

lemma delete_entries:
  assumes "Map_ok m" and "set t \<subseteq> set m"
  shows "delete_each (map fst t) m = filter (\<lambda>p. p \<notin> set t) m"
  unfolding delete_each_filter
proof (rule filter_cong[OF refl])
  fix p assume p: "p \<in> set m"
  have "inj_on fst (set m)" using assms(1) by (simp add: Map_ok_def distinct_map)
  then show "(fst p \<notin> set (map fst t)) = (p \<notin> set t)"
    using p assms(2) by (auto simp: inj_on_def)
qed

text \<open>The keys of the map stay pairwise different under every method.\<close>

lemma Map_ok_set: "Map_ok m \<Longrightarrow> Map_ok (Map_set k v m)"
  unfolding Map_ok_def
proof (induction m)
  case Nil
  show ?case by simp
next
  case (Cons p ps)
  then show ?case by (auto simp: keys_Map_set)
qed

lemma Map_ok_filter: "Map_ok m \<Longrightarrow> Map_ok (filter P m)"
  unfolding Map_ok_def by (simp add: distinct_map_filter)

subsection \<open>The two phases of cleanup\<close>

lemma swept_not_expired:
  "p \<in> set (delete_each (keysToDelete m now) m) \<Longrightarrow> \<not> expires (snd p) < now"
  by (auto simp: delete_each_filter keysToDelete_def)

lemma expired_sweep:
  "Map_ok m \<Longrightarrow> delete_each (keysToDelete m now) m = filter (\<lambda>p. \<not> expires (snd p) < now) m"
  unfolding delete_each_filter keysToDelete_def Map_ok_def
  by (rule filter_cong) (auto simp: distinct_map inj_on_def)

lemma set_toRemove: "set (toRemove m) \<subseteq> set m"
  unfolding toRemove_def by (metis set_take_subset set_sort)

lemma cleanup_cache:
  assumes "Map_ok (cache c)"
  shows "cache (cleanup c now) =
     (let m1 = filter (\<lambda>p. \<not> expires (snd p) < now) (cache c)
      in if length m1 > 1000 then filter (\<lambda>p. p \<notin> set (toRemove m1)) m1 else m1)"
proof -
  let ?m1 = "filter (\<lambda>p. \<not> expires (snd p) < now) (cache c)"
  have ok: "Map_ok ?m1" using assms by (rule Map_ok_filter)
  have "delete_each (map fst (toRemove ?m1)) ?m1 = filter (\<lambda>p. p \<notin> set (toRemove ?m1)) ?m1"
    by (rule delete_entries[OF ok set_toRemove])
  then show ?thesis
    by (simp add: cleanup_def Let_def expired_sweep[OF assms])
qed

lemma cleanup_no_expired:
  "p \<in> set (cache (cleanup c now)) \<Longrightarrow> \<not> isExpired (snd p) now"
  unfolding cleanup_def Let_def isExpired_def
  by (auto simp: delete_each_filter[of "map fst t" for t] dest: swept_not_expired split: if_splits)

lemma cleanup_counters: "hits (cleanup c now) = hits c" "misses (cleanup c now) = misses c"
  by (simp_all add: cleanup_def Let_def)

text \<open>What the eviction removes: the first 100 entries of the sorted list.\<close>

lemma evict_split:
  fixes f :: "'a \<Rightarrow> 'b::linorder" and m :: "'a list"
  assumes "distinct m" and "n \<le> length m"
  defines "xs \<equiv> sort_key f m"
  shows "set (filter (\<lambda>p. p \<notin> set (take n xs)) m) = set (drop n xs)"
    and "length (filter (\<lambda>p. p \<notin> set (take n xs)) m) = length m - n"
    and "\<forall>a \<in> set (take n xs). \<forall>b \<in> set (drop n xs). f a \<le> f b"
proof -
  have dxs: "distinct xs" and sxs: "set xs = set m" and lxs: "length xs = length m"
    using assms(1) by (simp_all add: xs_def)
  have disj: "set (take n xs) \<inter> set (drop n xs) = {}"
    using dxs by (metis append_take_drop_id distinct_append)
  have un: "set (take n xs) \<union> set (drop n xs) = set m"
    using sxs by (metis append_take_drop_id set_append)
  show A: "set (filter (\<lambda>p. p \<notin> set (take n xs)) m) = set (drop n xs)"
    using disj un by auto
  have "distinct (filter (\<lambda>p. p \<notin> set (take n xs)) m)" using assms(1) by simp
  then have "length (filter (\<lambda>p. p \<notin> set (take n xs)) m) = card (set (drop n xs))"
    using A by (metis distinct_card)
  also have "\<dots> = length (drop n xs)" using dxs by (simp add: distinct_card)
  finally show "length (filter (\<lambda>p. p \<notin> set (take n xs)) m) = length m - n"
    using lxs by simp
  have "sorted (map f xs)" by (simp add: xs_def)
  then have "sorted (map f (take n xs) @ map f (drop n xs))"
    by (metis append_take_drop_id map_append)
  then show "\<forall>a \<in> set (take n xs). \<forall>b \<in> set (drop n xs). f a \<le> f b"
    by (auto simp: sorted_append)
qed

lemma least_is_removed:
  fixes f :: "'a \<Rightarrow> 'b::linorder"
  assumes "x \<in> set m" and "\<forall>y\<in>set m. y \<noteq> x \<longrightarrow> f x < f y" and "0 < n"
  shows "x \<in> set (take n (sort_key f m))"
proof -
  define xs where "xs = sort_key f m"
  have "set xs = set m" by (simp add: xs_def)
  then have ne: "xs \<noteq> []" using assms(1) by auto
  then obtain z zs where xs: "xs = z # zs" by (cases xs) auto
  have "sorted (map f xs)" by (simp add: xs_def)
  moreover have "x \<in> set xs" using assms(1) by (simp add: xs_def)
  ultimately have "f z \<le> f x" unfolding xs by auto
  moreover have "z \<in> set m" using xs by (metis list.set_intros(1) set_sort xs_def)
  ultimately have "z = x" using assms(2) by force
  then show ?thesis using assms(3) xs unfolding xs_def[symmetric] by (cases n) auto
qed

subsection \<open>The invariant\<close>

lemma Map_ok_new: "Map_ok (cache new_CacheManager)"
  by (simp add: new_CacheManager_def Map_ok_def)

lemma Map_ok_cleanup: "Map_ok (cache c) \<Longrightarrow> Map_ok (cache (cleanup c now))"
  by (simp add: cleanup_cache Let_def Map_ok_filter)

lemma Map_ok_set_item: "Map_ok (cache c) \<Longrightarrow> Map_ok (cache (set_item sf c now now' k d ttl))"
  unfolding set_item_def Let_def by (rule Map_ok_cleanup) (simp add: Map_ok_set)

lemma Map_ok_get: "Map_ok (cache c) \<Longrightarrow> Map_ok (cache (snd (get c now k)))"
  unfolding get_def by (auto split: option.split simp: Map_delete_def Map_ok_filter)

lemma Map_ok_delete: "Map_ok (cache c) \<Longrightarrow> Map_ok (cache (snd (delete c k)))"
  by (simp add: delete_def Map_delete_def Map_ok_filter)

lemma Map_ok_clear: "Map_ok (cache c) \<Longrightarrow> Map_ok (cache (clear c prefix))"
  by (simp add: clear_def delete_each_filter Map_ok_filter Map_ok_def[of "[]"] split: option.split)

subsection \<open>One call of set, in terms of the swept map\<close>

lemma set_item_cache:
  "cache (set_item sf c now now' key d ttl) =
     (let m1 = swept sf c now now' key d ttl
      in if length m1 > 1000 then delete_each (map fst (toRemove m1)) m1 else m1)"
  by (simp add: set_item_def swept_def cleanup_def Let_def)

lemma swept_filter:
  assumes "Map_ok (cache c)"
  shows "swept sf c now now' key d ttl =
     filter (\<lambda>p. \<not> expires (snd p) < now')
       (Map_set key \<lparr>data = d, expires = now + ttl * 1000, esize = calculateSize sf d\<rparr> (cache c))"
  unfolding swept_def Let_def by (rule expired_sweep[OF Map_ok_set[OF assms]])

lemma Map_ok_swept: "Map_ok (cache c) \<Longrightarrow> Map_ok (swept sf c now now' key d ttl)"
  by (simp add: swept_filter Map_ok_filter Map_ok_set)

lemma swept_unexpired: "p \<in> set (swept sf c now now' key d ttl) \<Longrightarrow> \<not> isExpired (snd p) now'"
  unfolding swept_def Let_def isExpired_def by (rule swept_not_expired)

lemma set_item_evicts:
  assumes ok: "Map_ok (cache c)" and big: "length (swept sf c now now' key d ttl) > 1000"
  shows "set (cache (set_item sf c now now' key d ttl)) \<subseteq> set (swept sf c now now' key d ttl)"
    and "length (cache (set_item sf c now now' key d ttl)) = length (swept sf c now now' key d ttl) - 100"
    and "\<forall>r \<in> set (swept sf c now now' key d ttl) - set (cache (set_item sf c now now' key d ttl)).
         \<forall>s \<in> set (cache (set_item sf c now now' key d ttl)). expires (snd r) \<le> expires (snd s)"
proof -
  let ?m1 = "swept sf c now now' key d ttl"
  let ?f = "\<lambda>p::string \<times> 'a CacheEntry. expires (snd p)"
  let ?xs = "sort_key ?f ?m1"
  have ok1: "Map_ok ?m1" by (rule Map_ok_swept[OF ok])
  have "cache (set_item sf c now now' key d ttl) = delete_each (map fst (toRemove ?m1)) ?m1"
    using big by (simp add: set_item_cache Let_def)
  also have "\<dots> = filter (\<lambda>p. p \<notin> set (toRemove ?m1)) ?m1"
    by (rule delete_entries[OF ok1 set_toRemove])
  finally have res: "cache (set_item sf c now now' key d ttl) = filter (\<lambda>p. p \<notin> set (take 100 ?xs)) ?m1"
    by (simp add: toRemove_def)
  have d: "distinct ?m1" by (rule Map_ok_distinct[OF ok1])
  have n: "100 \<le> length ?m1" using big by simp
  note E = evict_split[OF d n, of ?f]
  show "set (cache (set_item sf c now now' key d ttl)) \<subseteq> set ?m1" unfolding res by auto
  show "length (cache (set_item sf c now now' key d ttl)) = length ?m1 - 100"
    unfolding res by (rule E(2))
  have kept: "set (cache (set_item sf c now now' key d ttl)) = set (drop 100 ?xs)"
    unfolding res by (rule E(1))
  have "set ?m1 = set (take 100 ?xs) \<union> set (drop 100 ?xs)"
    by (metis append_take_drop_id set_append set_sort)
  then have "set ?m1 - set (drop 100 ?xs) \<subseteq> set (take 100 ?xs)" by auto
  then show "\<forall>r \<in> set ?m1 - set (cache (set_item sf c now now' key d ttl)).
         \<forall>s \<in> set (cache (set_item sf c now now' key d ttl)). expires (snd r) \<le> expires (snd s)"
    unfolding kept using E(3) by blast
qed

lemma set_item_keeps:
  assumes "length (swept sf c now now' key d ttl) \<le> 1000"
  shows "cache (set_item sf c now now' key d ttl) = swept sf c now now' key d ttl"
  using assms by (simp add: set_item_cache Let_def)

subsection \<open>What getStats counts\<close>

lemma fold_count: "fold (\<lambda>entry acc. acc + 1) xs (n::nat) = n + length xs"
  by (induction xs arbitrary: n) auto

lemma fold_sizes: "fold (\<lambda>entry acc. acc + esize entry) xs (n::nat) = n + sum_list (map esize xs)"
  by (induction xs arbitrary: n) auto

lemma getStats_fields:
  "total_size (getStats c now mem) = sum_list (map esize (live c now))"
  "entries (getStats c now mem) = length (live c now)"
  "memoryUsage (getStats c now mem) = (case mem of Some h \<Rightarrow> h | None \<Rightarrow> 0)"
  "hitRate (getStats c now mem) =
     (if hits c + misses c > 0 then of_nat (hits c) / of_nat (hits c + misses c) else 0)"
  unfolding getStats_def Let_def live_def fold_sizes fold_count by simp_all

lemma live_after_delete:
  assumes "Map_get m k = Some e" "isExpired e now" "now \<le> now2" "Map_ok m"
  shows "filter (\<lambda>entry. \<not> isExpired entry now2) (map snd (Map_delete k m))
       = filter (\<lambda>entry. \<not> isExpired entry now2) (map snd m)"
proof -
  have "p \<in> set m \<Longrightarrow> fst p = k \<Longrightarrow> isExpired (snd p) now2" for p
  proof -
    assume "p \<in> set m" "fst p = k"
    then have "map_of m k = Some (snd p)"
      using assms(4) by (metis Map_ok_def map_of_eq_Some_iff prod.collapse)
    then have "snd p = e" using assms(1) by (simp add: Map_get_def)
    then show ?thesis using assms(2,3) by (simp add: isExpired_def)
  qed
  then have "filter (\<lambda>p. \<not> isExpired (snd p) now2) (Map_delete k m)
           = filter (\<lambda>p. \<not> isExpired (snd p) now2) m"
    unfolding Map_delete_def filter_filter by (intro filter_cong) auto
  then have "map snd (filter (\<lambda>p. \<not> isExpired (snd p) now2) (Map_delete k m))
           = map snd (filter (\<lambda>p. \<not> isExpired (snd p) now2) m)" by simp
  then show ?thesis by (simp add: filter_map o_def)
qed

subsection \<open>A run of calls that never fills the cache and in which nothing expires\<close>

lemma set_calls_snoc:
  "set_calls sf c (xs @ [a]) =
     set_item sf (set_calls sf c xs) (at_insert a) (at_cleanup a) (call_key a) (call_data a) (call_ttl a)"
  by (simp add: set_calls_def)

lemma fst_o_call_entry: "fst \<circ> call_entry sf = call_key"
  by (rule ext) (simp add: call_entry_def)

lemma keys_call_entries: "map fst (map (call_entry sf) xs) = map call_key xs"
  by (simp add: fst_o_call_entry)

lemma swept_fresh_live:
  assumes c: "cache c = map (call_entry sf) xs"
    and d: "distinct (map call_key (xs @ [a]))"
    and live: "\<forall>x\<in>set (xs @ [a]). \<not> (at_insert x + call_ttl x * 1000 < at_cleanup a)"
  shows "swept sf c (at_insert a) (at_cleanup a) (call_key a) (call_data a) (call_ttl a)
       = map (call_entry sf) (xs @ [a])"
proof -
  have ok: "Map_ok (cache c)" using d by (simp add: c Map_ok_def fst_o_call_entry)
  have fresh: "call_key a \<notin> fst ` set (cache c)"
    using d by (simp add: c image_image call_entry_def)
  have ins: "Map_set (call_key a)
       \<lparr>data = call_data a, expires = at_insert a + call_ttl a * 1000, esize = calculateSize sf (call_data a)\<rparr>
       (cache c) = map (call_entry sf) (xs @ [a])"
    using Map_set_fresh[OF fresh] by (simp add: c call_entry_def)
  have "filter (\<lambda>p. \<not> expires (snd p) < at_cleanup a) (map (call_entry sf) (xs @ [a]))
      = map (call_entry sf) (xs @ [a])"
    using live by (intro filter_True) (auto simp: call_entry_def)
  then show ?thesis by (simp only: swept_filter[OF ok] ins)
qed

lemma set_calls_no_eviction:
  assumes "cache c = []" and "distinct (map call_key calls)" and "length calls \<le> 1000"
    and "\<forall>a\<in>set calls. \<forall>b\<in>set calls. \<not> (at_insert a + call_ttl a * 1000 < at_cleanup b)"
  shows "cache (set_calls sf c calls) = map (call_entry sf) calls"
  using assms(2-)
proof (induction calls rule: rev_induct)
  case Nil
  show ?case using assms(1) by (simp add: set_calls_def)
next
  case (snoc a xs)
  have IH: "cache (set_calls sf c xs) = map (call_entry sf) xs"
    using snoc by auto
  have sw: "swept sf (set_calls sf c xs) (at_insert a) (at_cleanup a) (call_key a) (call_data a) (call_ttl a)
       = map (call_entry sf) (xs @ [a])"
    by (rule swept_fresh_live[OF IH snoc.prems(1)]) (use snoc.prems(3) in auto)
  have "length (swept sf (set_calls sf c xs) (at_insert a) (at_cleanup a) (call_key a) (call_data a) (call_ttl a)) \<le> 1000"
    using snoc.prems(2) unfolding sw by simp
  then show ?case unfolding set_calls_snoc by (simp only: set_item_keeps sw)
qed

lemma insert_1001:
  assumes len: "length calls = 1001" and d: "distinct (map call_key calls)"
    and live: "\<forall>a\<in>set calls. \<forall>b\<in>set calls. \<not> (at_insert a + call_ttl a * 1000 < at_cleanup b)"
    and empty: "cache c = []"
  shows "length (cache (set_calls sf c calls)) = 901"
    and "set (cache (set_calls sf c calls)) \<subseteq> set (map (call_entry sf) calls)"
    and "\<forall>r \<in> set (map (call_entry sf) calls) - set (cache (set_calls sf c calls)).
         \<forall>s \<in> set (cache (set_calls sf c calls)). expires (snd r) \<le> expires (snd s)"
proof -
  obtain xs a where calls: "calls = xs @ [a]"
    using len by (cases calls rule: rev_cases) auto
  have lx: "length xs = 1000" using len calls by simp
  have before: "cache (set_calls sf c xs) = map (call_entry sf) xs"
    by (rule set_calls_no_eviction[OF empty]) (use d live lx calls in auto)
  have ok: "Map_ok (cache (set_calls sf c xs))"
    using d calls by (simp add: before Map_ok_def fst_o_call_entry)
  have sw: "swept sf (set_calls sf c xs) (at_insert a) (at_cleanup a) (call_key a) (call_data a) (call_ttl a)
       = map (call_entry sf) calls"
    unfolding calls by (rule swept_fresh_live[OF before]) (use d live calls in auto)
  have big: "length (swept sf (set_calls sf c xs) (at_insert a) (at_cleanup a) (call_key a) (call_data a) (call_ttl a)) > 1000"
    unfolding sw using len by simp
  note E = set_item_evicts[OF ok big, unfolded sw, folded set_calls_snoc calls]
  show "length (cache (set_calls sf c calls)) = 901" using E(2) len by simp
  show "set (cache (set_calls sf c calls)) \<subseteq> set (map (call_entry sf) calls)" by (rule E(1))
  show "\<forall>r \<in> set (map (call_entry sf) calls) - set (cache (set_calls sf c calls)).
         \<forall>s \<in> set (cache (set_calls sf c calls)). expires (snd r) \<le> expires (snd s)" by (rule E(3))
qed

subsection \<open>The example states\<close>

lemma distinct_replicate_keys: "distinct (map (\<lambda>i. replicate i (x::char)) [a..<b])"
  by (simp add: distinct_map inj_on_def)

lemma fst_o_filler: "fst \<circ> filler = (\<lambda>i. replicate i CHR ''k'')"
  by (rule ext) (simp add: filler_def)

lemma Map_ok_full_cache: "Map_ok (cache full_cache)"
  by (simp add: full_cache_def Map_ok_def fst_o_filler distinct_replicate_keys)

lemma key_1000_fresh: "replicate 1000 CHR ''k'' \<notin> fst ` set (map filler [a..<1000])"
proof
  assume "replicate 1000 CHR ''k'' \<in> fst ` set (map filler [a..<1000])"
  then obtain i where "i < 1000" "replicate 1000 CHR ''k'' = replicate i CHR ''k''"
    by (auto simp: filler_def)
  then show False by (metis length_replicate less_irrefl)
qed

lemma n_fresh: "''n'' \<notin> fst ` set (map filler [a..<b])"
proof
  assume "''n'' \<in> fst ` set (map filler [a..<b])"
  then obtain i where "''n'' = replicate i CHR ''k''" by (auto simp: filler_def)
  then have "CHR ''n'' \<in> set (replicate i CHR ''k'')" by (metis list.set_intros(1))
  then show False by simp
qed

lemma size_true: "calculateSize stringify_bool (Value True) = 4"
  by (simp add: calculateSize_def stringify_bool_def)

lemma swept_full_cache:
  "swept stringify_bool full_cache 0 0 (replicate 1000 CHR ''k'') (Value True) 1
   = map filler [0..<1000] @ [(replicate 1000 CHR ''k'', \<lparr>data = Value True, expires = 1000, esize = 4\<rparr>)]"
proof -
  have "Map_set (replicate 1000 CHR ''k'') \<lparr>data = Value True, expires = 1000, esize = 4\<rparr> (map filler [0..<1000])
      = map filler [0..<1000] @ [(replicate 1000 CHR ''k'', \<lparr>data = Value True, expires = 1000, esize = 4\<rparr>)]"
    by (rule Map_set_fresh[OF key_1000_fresh])
  moreover have "filter (\<lambda>p. \<not> expires (snd p) < 0) (map filler [0..<1000]) = map filler [0..<1000]"
    by (intro filter_True) (auto simp: filler_def)
  ultimately show ?thesis
    unfolding swept_filter[OF Map_ok_full_cache] size_true
    by (simp add: full_cache_def)
qed

lemma new_entry_evicted:
  "(replicate 1000 CHR ''k'', \<lparr>data = Value True, expires = 1000, esize = 4\<rparr>)
     \<in> set (toRemove (swept stringify_bool full_cache 0 0 (replicate 1000 CHR ''k'') (Value True) 1))"
  unfolding toRemove_def swept_full_cache
  by (rule least_is_removed) (auto simp: filler_def)

lemma sorted_const: "sorted (map (\<lambda>x. c::int) xs)"
  by (induction xs) auto

lemma swept_full_cache_late:
  "swept stringify_bool full_cache 0 0 (replicate 1000 CHR ''k'') (Value True) 9000
   = map filler [0..<1000] @ [(replicate 1000 CHR ''k'', \<lparr>data = Value True, expires = 9000000, esize = 4\<rparr>)]"
proof -
  have "Map_set (replicate 1000 CHR ''k'') \<lparr>data = Value True, expires = 9000000, esize = 4\<rparr> (map filler [0..<1000])
      = map filler [0..<1000] @ [(replicate 1000 CHR ''k'', \<lparr>data = Value True, expires = 9000000, esize = 4\<rparr>)]"
    by (rule Map_set_fresh[OF key_1000_fresh])
  moreover have "filter (\<lambda>p. \<not> expires (snd p) < 0) (map filler [0..<1000]) = map filler [0..<1000]"
    by (intro filter_True) (auto simp: filler_def)
  ultimately show ?thesis
    unfolding swept_filter[OF Map_ok_full_cache] size_true
    by (simp add: full_cache_def)
qed

lemma toRemove_full_cache_late:
  "toRemove (swept stringify_bool full_cache 0 0 (replicate 1000 CHR ''k'') (Value True) 9000)
   = map filler [0..<100]"
proof -
  let ?new = "(replicate 1000 CHR ''k'', \<lparr>data = Value True, expires = 9000000, esize = 4\<rparr>) :: string \<times> bool nullable CacheEntry"
  let ?m = "map filler [0..<1000] @ [?new]"
  have "sorted (map (\<lambda>p. expires (snd p)) ?m)"
    by (simp add: sorted_append filler_def o_def sorted_const)
  then have "sort_key (\<lambda>p. expires (snd p)) ?m = ?m"
    by (rule sort_key_id_if_sorted)
  then show ?thesis
    unfolding toRemove_def swept_full_cache_late by (simp add: take_map)
qed

lemma Map_ok_stale_cache: "Map_ok (cache stale_cache)"
proof -
  have "[] \<notin> (\<lambda>i. replicate i CHR ''k'') ` {1..<1000}" by auto
  then show ?thesis
    by (simp add: stale_cache_def Map_ok_def fst_o_filler distinct_replicate_keys)
qed

lemma many_calls_facts:
  "length many_calls = 1001"
  "distinct (map call_key many_calls)"
  "\<forall>a\<in>set many_calls. \<forall>b\<in>set many_calls. \<not> (at_insert a + call_ttl a * 1000 < at_cleanup b)"
    by (auto simp: many_calls_def o_def distinct_replicate_keys)

lemmas cache_eval =
  get_def has_def set_item_def cleanup_def Let_def delete_each_def keysToDelete_def
  Map_delete_def Map_get_def toRemove_def calculateSize_def stringify_bool_def isExpired_def
  Map_ok_def

section \<open>Properties of the encodings\<close>

subsection \<open>Hex and base64\<close>

lemma unat16: "n < 65536 \<Longrightarrow> unat (of_nat n :: 16 word) = n"
  by (simp add: unat_of_nat)

lemma unat8: "n < 256 \<Longrightarrow> unat (of_nat n :: 8 word) = n"
  by (simp add: unat_of_nat)

lemma unat8_lt: "unat (b :: 8 word) < 256"
  using unsigned_less[of b, where ?'a = nat] by simp

lemma unat_hex_digit: "n < 16 \<Longrightarrow> unat (hex_digit n) = (if n < 10 then 48 + n else 87 + n)"
  unfolding hex_digit_def by (rule unat16) simp

lemma unhex_hex_digit: "n < 16 \<Longrightarrow> unhex (hex_digit n) = Some n"
  by (simp add: unhex_def unat_hex_digit)

lemma hex_roundtrip: "hex_decode (hex_encode bs) = bs"
proof (induction bs)
  case Nil
  show ?case by (simp add: hex_encode_def)
next
  case (Cons b bs)
  have "unat b div 16 < 16" "unat b mod 16 < 16" using unat8_lt[of b] by auto
  moreover have "of_nat (16 * (unat b div 16) + unat b mod 16) = b" by simp
  ultimately show ?case using Cons by (simp add: hex_encode_def unhex_hex_digit)
qed

lemma hex_encode_append: "hex_encode (xs @ ys) = hex_encode xs @ hex_encode ys"
  by (simp add: hex_encode_def)

lemma unat_base64_digit:
  "n < 64 \<Longrightarrow> unat (base64_digit n) =
     (if n < 26 then 65 + n else if n < 52 then 71 + n else if n < 62 then n - 4
      else if n = 62 then 43 else 47)"
  unfolding base64_digit_def by (rule unat16) auto

lemma low_byte_base64_digit:
  "n < 64 \<Longrightarrow> low_byte (base64_digit n) =
     (if n < 26 then 65 + n else if n < 52 then 71 + n else if n < 62 then n - 4
      else if n = 62 then 43 else 47)"
  unfolding low_byte_def by (auto simp: unat_base64_digit)

lemma unbase64_digit: "n < 64 \<Longrightarrow> unbase64 (base64_digit n) = Some n"
  by (auto simp: unbase64_def low_byte_base64_digit)

lemma base64_digit_not_pad: "n < 64 \<Longrightarrow> low_byte (base64_digit n) \<noteq> 61"
  by (auto simp: low_byte_base64_digit)

lemma base64_digits_digit:
  "n < 64 \<Longrightarrow> base64_digits (base64_digit n # s) = n # base64_digits s"
  by (simp add: base64_digits_def base64_digit_not_pad unbase64_digit List.map_filter_simps)

lemma base64_digits_pad: "base64_digits (61 # s) = []"
  by (simp add: base64_digits_def low_byte_def List.map_filter_simps)


lemma sextets:
  "unat (a::byte) div 4 < 64" "(unat a mod 4) * 16 + unat (b::byte) div 16 < 64"
  "(unat b mod 16) * 4 + unat (c::byte) div 64 < 64" "unat c mod 64 < 64"
  "(unat a mod 4) * 16 < 64" "(unat b mod 16) * 4 < 64"
  using unat8_lt[of a] unat8_lt[of b] unat8_lt[of c] by auto

lemma digit_pair:
  fixes m n q :: nat
  assumes "q < n"
  shows "(m * n + q) div n = m" and "(m * n + q) mod n = q"
  using assms by simp_all

lemma regroup_nat:
  fixes a b c :: nat
  assumes "b < 256" "c < 256"
  shows "a div 4 * 4 + ((a mod 4) * 16 + b div 16) div 16 = a"
    and "(((a mod 4) * 16 + b div 16) mod 16) * 16 + ((b mod 16) * 4 + c div 64) div 4 = b"
    and "(((b mod 16) * 4 + c div 64) mod 4) * 64 + c mod 64 = c"
    and "a div 4 * 4 + ((a mod 4) * 16) div 16 = a"
    and "(((a mod 4) * 16 + b div 16) mod 16) * 16 + ((b mod 16) * 4) div 4 = b"
proof -
  have b16: "b div 16 < 16" and c64: "c div 64 < 4" using assms by simp_all
  show "a div 4 * 4 + ((a mod 4) * 16 + b div 16) div 16 = a"
    by (simp only: digit_pair(1)[OF b16] div_mult_mod_eq)
  show "(((a mod 4) * 16 + b div 16) mod 16) * 16 + ((b mod 16) * 4 + c div 64) div 4 = b"
    by (simp only: digit_pair(2)[OF b16] digit_pair(1)[OF c64] div_mult_mod_eq)
  show "(((b mod 16) * 4 + c div 64) mod 4) * 64 + c mod 64 = c"
    by (simp only: digit_pair(2)[OF c64] div_mult_mod_eq)
  show "a div 4 * 4 + ((a mod 4) * 16) div 16 = a"
    by simp
  show "(((a mod 4) * 16 + b div 16) mod 16) * 16 + ((b mod 16) * 4) div 4 = b"
    by (simp only: digit_pair(2)[OF b16] nonzero_mult_div_cancel_right div_mult_mod_eq)
qed

lemma regroup:
  "of_nat (unat (a::byte) div 4 * 4 + ((unat a mod 4) * 16 + unat (b::byte) div 16) div 16) = a"
  "of_nat ((((unat (a::byte) mod 4) * 16 + unat (b::byte) div 16) mod 16) * 16
       + ((unat b mod 16) * 4 + unat (c::byte) div 64) div 4) = b"
  "of_nat ((((unat (b::byte) mod 16) * 4 + unat (c::byte) div 64) mod 4) * 64 + unat c mod 64) = c"
  "of_nat (unat (a::byte) div 4 * 4 + ((unat a mod 4) * 16) div 16) = a"
  "of_nat ((((unat (a::byte) mod 4) * 16 + unat (b::byte) div 16) mod 16) * 16
       + ((unat b mod 16) * 4) div 4) = b"
  unfolding regroup_nat[OF unat8_lt unat8_lt] by simp_all

lemma base64_roundtrip: "base64_decode (base64_encode bs) = bs"
  unfolding base64_decode_def
proof (induction bs rule: base64_encode.induct)
  case (1 a b c r)
  then show ?case
    by (simp only: base64_encode.simps append_Cons append_Nil base64_digits_digit sextets
        base64_bytes.simps regroup)
next
  case (2 a b)
  show ?case
    by (simp only: base64_encode.simps append_Cons append_Nil base64_digits_digit sextets
        base64_digits_pad base64_bytes.simps regroup)
next
  case (3 a)
  show ?case
    by (simp only: base64_encode.simps append_Cons append_Nil base64_digits_digit sextets
        base64_digits_pad base64_bytes.simps regroup)
next
  case 4
  show ?case by (simp add: base64_digits_def List.map_filter_simps)
qed

subsection \<open>UTF-16 and UTF-8\<close>

text \<open>UTF-16: the code points of a well-formed string give the string back.\<close>

lemma unat16_lt: "unat (u :: 16 word) < 65536"
  using unsigned_less[of u, where ?'a = nat] by simp

lemma utf16_units_plain:
  "\<not> is_high u \<Longrightarrow> \<not> is_low u \<Longrightarrow> utf16_units (unat u) = [u] \<and> scalar (unat u)"
  using unat16_lt[of u] by (auto simp: utf16_units_def scalar_def is_high_def is_low_def)

lemma utf16_units_pair:
  assumes "is_high h" "is_low l"
  shows "utf16_units (0x10000 + (unat h - 0xD800) * 0x400 + (unat l - 0xDC00)) = [h, l]"
    and "scalar (0x10000 + (unat h - 0xD800) * 0x400 + (unat l - 0xDC00))"
proof -
  define x y where "x = unat h - 0xD800" and "y = unat l - 0xDC00"
  have x: "x < 0x400" "unat h = 0xD800 + x" and y: "y < 0x400" "unat l = 0xDC00 + y"
    using assms by (auto simp: x_def y_def is_high_def is_low_def)
  have "(x * 0x400 + y) div 0x400 = x" "(x * 0x400 + y) mod 0x400 = y"
    using y(1) by simp_all
  then have "utf16_units (0x10000 + x * 0x400 + y) = [of_nat (unat h), of_nat (unat l)]"
    unfolding x(2) y(2) by (simp add: utf16_units_def add.assoc)
  then show "utf16_units (0x10000 + (unat h - 0xD800) * 0x400 + (unat l - 0xDC00)) = [h, l]"
    unfolding x_def y_def by simp
  have "x * 0x400 \<le> 0x3FF * 0x400" using x(1) by simp
  then show "scalar (0x10000 + (unat h - 0xD800) * 0x400 + (unat l - 0xDC00))"
    unfolding x_def[symmetric] y_def[symmetric] using y(1) by (simp add: scalar_def)
qed

lemma utf16_roundtrip:
  "well_formed s \<Longrightarrow> concat (map utf16_units (code_points s)) = s \<and> list_all scalar (code_points s)"
proof (induction s rule: code_points.induct)
  case 1
  show ?case by simp
next
  case (2 u us)
  show ?case
  proof (cases "is_high u")
    case True
    then obtain l r where us: "us = l # r" and l: "is_low l" and r: "well_formed r"
      using "2.prems" by (cases us) auto
    have "concat (map utf16_units (code_points r)) = r \<and> list_all scalar (code_points r)"
      using "2.IH" True us l r by blast
    then show ?thesis
      using utf16_units_pair[OF True l] True l by (simp add: us)
  next
    case False
    then have nl: "\<not> is_low u" and wf: "well_formed us" using "2.prems" by auto
    have "concat (map utf16_units (code_points us)) = us \<and> list_all scalar (code_points us)"
      using "2.IH" False nl wf by blast
    then show ?thesis
      using utf16_units_plain[OF False nl] False nl by simp
  qed
qed

text \<open>UTF-8: decoding the bytes of a code point gives the code point.\<close>

lemma utf8_points_1:
  "unat b0 < 0x80 \<Longrightarrow> utf8_points (b0 # bs) = unat b0 # utf8_points bs"
  by simp

lemma utf8_points_2:
  "0xC2 \<le> unat b0 \<Longrightarrow> unat b0 \<le> 0xDF \<Longrightarrow> cont 0x80 0xBF b1 \<Longrightarrow>
   utf8_points (b0 # b1 # r) = ((unat b0 - 0xC0) * 64 + (unat b1 - 0x80)) # utf8_points r"
  by simp

lemma utf8_points_3:
  "0xE0 \<le> unat b0 \<Longrightarrow> unat b0 \<le> 0xEF \<Longrightarrow>
   cont (if unat b0 = 0xE0 then 0xA0 else 0x80) (if unat b0 = 0xED then 0x9F else 0xBF) b1 \<Longrightarrow>
   cont 0x80 0xBF b2 \<Longrightarrow>
   utf8_points (b0 # b1 # b2 # r) =
     ((unat b0 - 0xE0) * 4096 + (unat b1 - 0x80) * 64 + (unat b2 - 0x80)) # utf8_points r"
  by simp

lemma utf8_points_4:
  "0xF0 \<le> unat b0 \<Longrightarrow> unat b0 \<le> 0xF4 \<Longrightarrow>
   cont (if unat b0 = 0xF0 then 0x90 else 0x80) (if unat b0 = 0xF4 then 0x8F else 0xBF) b1 \<Longrightarrow>
   cont 0x80 0xBF b2 \<Longrightarrow> cont 0x80 0xBF b3 \<Longrightarrow>
   utf8_points (b0 # b1 # b2 # b3 # r) =
     ((unat b0 - 0xF0) * 262144 + (unat b1 - 0x80) * 4096 + (unat b2 - 0x80) * 64 + (unat b3 - 0x80))
       # utf8_points r"
  by simp


lemma utf8_bytes_1:
  assumes "cp < 0x80"
  shows "utf8_points (utf8_bytes cp @ rest) = cp # utf8_points rest"
proof -
  have b0: "unat (of_nat cp :: byte) = cp" by (rule unat8) (use assms in simp)
  have "utf8_bytes cp = [of_nat cp]" using assms by (simp add: utf8_bytes_def)
  then show ?thesis using utf8_points_1[of "of_nat cp" rest] assms by (simp only: b0 append_Cons append_Nil)
qed

lemma utf8_bytes_2:
  assumes "0x80 \<le> cp" "cp < 0x800"
  shows "utf8_points (utf8_bytes cp @ rest) = cp # utf8_points rest"
proof -
  define q d where "q = cp div 64" and "d = cp mod 64"
  have q: "2 \<le> q" "q < 32" and d: "d < 64" and cp: "q * 64 + d = cp"
    using assms by (auto simp: q_def d_def)
  define b0 b1 :: byte where "b0 = of_nat (0xC0 + q)" and "b1 = of_nat (0x80 + d)"
  have u0: "unat b0 = 0xC0 + q" unfolding b0_def by (rule unat8) (use q in simp)
  have u1: "unat b1 = 0x80 + d" unfolding b1_def by (rule unat8) (use d in simp)
  have bytes: "utf8_bytes cp = [b0, b1]"
    using assms unfolding b0_def b1_def q_def d_def utf8_bytes_def by simp
  have "utf8_points (b0 # b1 # rest) = ((unat b0 - 0xC0) * 64 + (unat b1 - 0x80)) # utf8_points rest"
    by (rule utf8_points_2) (use q d in \<open>simp_all add: u0 u1 cont_def\<close>)
  then show ?thesis unfolding bytes u0 u1 using cp by simp
qed


lemma digits64:
  fixes n :: nat
  shows "n div 4096 = n div 64 div 64" and "n div 262144 = n div 64 div 64 div 64"
    and "n div 64 * 64 + n mod 64 = n"
  by (simp_all add: div_mult2_eq[symmetric])

lemma utf8_bytes_3:
  assumes "0x800 \<le> cp" "cp < 0x10000" "\<not> (0xD800 \<le> cp \<and> cp \<le> 0xDFFF)"
  shows "utf8_points (utf8_bytes cp @ rest) = cp # utf8_points rest"
proof -
  define q d1 d0 where "q = cp div 4096" and "d1 = cp div 64 mod 64" and "d0 = cp mod 64"
  have "cp div 64 = q * 64 + d1" unfolding q_def d1_def digits64(1) by simp
  then have cp: "q * 4096 + d1 * 64 + d0 = cp"
    using digits64(3)[of cp] unfolding d0_def by simp
  have d: "d1 < 64" "d0 < 64" by (simp_all add: d1_def d0_def)
  have q: "q < 16" using assms(2) cp by simp
  have lo: "q = 0 \<Longrightarrow> 32 \<le> d1" using assms(1) cp d by simp
  have hi: "q = 13 \<Longrightarrow> d1 < 32" using assms(3) cp d by simp
  define b0 b1 b2 :: byte
    where "b0 = of_nat (0xE0 + q)" and "b1 = of_nat (0x80 + d1)" and "b2 = of_nat (0x80 + d0)"
  have u0: "unat b0 = 0xE0 + q" unfolding b0_def by (rule unat8) (use q in simp)
  have u1: "unat b1 = 0x80 + d1" unfolding b1_def by (rule unat8) (use d in simp)
  have u2: "unat b2 = 0x80 + d0" unfolding b2_def by (rule unat8) (use d in simp)
  have bytes: "utf8_bytes cp = [b0, b1, b2]"
    using assms unfolding b0_def b1_def b2_def q_def d1_def d0_def utf8_bytes_def by simp
  have "utf8_points (b0 # b1 # b2 # rest) =
     ((unat b0 - 0xE0) * 4096 + (unat b1 - 0x80) * 64 + (unat b2 - 0x80)) # utf8_points rest"
    by (rule utf8_points_3) (use q d lo hi in \<open>auto simp: u0 u1 u2 cont_def\<close>)
  then show ?thesis unfolding bytes u0 u1 u2 using cp by simp
qed

lemma utf8_bytes_4:
  assumes "0x10000 \<le> cp" "cp < 0x110000"
  shows "utf8_points (utf8_bytes cp @ rest) = cp # utf8_points rest"
proof -
  define q d2 d1 d0
    where "q = cp div 262144" and "d2 = cp div 4096 mod 64" and "d1 = cp div 64 mod 64"
      and "d0 = cp mod 64"
  have "cp div 64 div 64 = q * 64 + d2" unfolding q_def d2_def digits64 by simp
  moreover have "cp div 64 = cp div 64 div 64 * 64 + d1" unfolding d1_def by simp
  ultimately have cp: "q * 262144 + d2 * 4096 + d1 * 64 + d0 = cp"
    using digits64(3)[of cp] unfolding d0_def by simp
  have d: "d2 < 64" "d1 < 64" "d0 < 64" by (simp_all add: d2_def d1_def d0_def)
  have q: "q \<le> 4" using assms(2) cp by simp
  have lo: "q = 0 \<Longrightarrow> 16 \<le> d2" using assms(1) cp d by simp
  have hi: "q = 4 \<Longrightarrow> d2 < 16" using assms(2) cp d by simp
  define b0 b1 b2 b3 :: byte
    where "b0 = of_nat (0xF0 + q)" and "b1 = of_nat (0x80 + d2)" and "b2 = of_nat (0x80 + d1)"
      and "b3 = of_nat (0x80 + d0)"
  have u0: "unat b0 = 0xF0 + q" unfolding b0_def by (rule unat8) (use q in simp)
  have u1: "unat b1 = 0x80 + d2" unfolding b1_def by (rule unat8) (use d in simp)
  have u2: "unat b2 = 0x80 + d1" unfolding b2_def by (rule unat8) (use d in simp)
  have u3: "unat b3 = 0x80 + d0" unfolding b3_def by (rule unat8) (use d in simp)
  have bytes: "utf8_bytes cp = [b0, b1, b2, b3]"
    using assms unfolding b0_def b1_def b2_def b3_def q_def d2_def d1_def d0_def utf8_bytes_def
    by simp
  have "utf8_points (b0 # b1 # b2 # b3 # rest) =
     ((unat b0 - 0xF0) * 262144 + (unat b1 - 0x80) * 4096 + (unat b2 - 0x80) * 64 + (unat b3 - 0x80))
       # utf8_points rest"
    by (rule utf8_points_4) (use q d lo hi in \<open>auto simp: u0 u1 u2 u3 cont_def\<close>)
  then show ?thesis unfolding bytes u0 u1 u2 u3 using cp by simp
qed

lemma utf8_bytes_points:
  "scalar cp \<Longrightarrow> utf8_points (utf8_bytes cp @ rest) = cp # utf8_points rest"
  using utf8_bytes_1[of cp rest] utf8_bytes_2[of cp rest] utf8_bytes_3[of cp rest]
    utf8_bytes_4[of cp rest]
  unfolding scalar_def by linarith

lemma utf8_points_bytes:
  "list_all scalar cps \<Longrightarrow> utf8_points (concat (map utf8_bytes cps)) = cps"
  by (induction cps) (simp_all add: utf8_bytes_points)

lemma utf8_roundtrip: "well_formed s \<Longrightarrow> utf8_decode (utf8_encode s) = s"
  using utf16_roundtrip[of s] by (simp add: utf8_decode_def utf8_encode_def utf8_points_bytes)

lemma utf8_bytes_nonempty: "utf8_bytes cp \<noteq> []"
  by (simp add: utf8_bytes_def)

lemma code_points_nonempty: "s \<noteq> [] \<Longrightarrow> code_points s \<noteq> []"
  by (cases s) (auto split: list.splits)

lemma utf8_encode_nonempty: "s \<noteq> [] \<Longrightarrow> utf8_encode s \<noteq> []"
  using code_points_nonempty[of s] by (cases "code_points s") (auto simp: utf8_encode_def utf8_bytes_nonempty)

section \<open>Properties of the token cipher\<close>

text \<open>The pieces of the combined buffer.\<close>

lemma length_word_bytes: "length (word_bytes n w) = n"
  by (simp add: word_bytes_def)

lemma length_randomBytes: "length (randomBytes rnd n) = n"
  by (simp add: randomBytes_def)

lemma length_gcm_crypt: "length (gcm_crypt P key iv bs) = length bs"
  by (simp add: gcm_crypt_def)

lemma length_getAuthTag: "length (getAuthTag P key iv ct) = 16"
  by (simp add: getAuthTag_def length_word_bytes)

lemma length_key: "length (getEncryptionKey P env) = 32"
  by (simp add: getEncryptionKey_def sha256_digest_def length_word_bytes split: option.split)

lemma gcm_crypt_twice: "gcm_crypt P key iv (gcm_crypt P key iv bs) = bs"
  unfolding gcm_crypt_def
  by (rule nth_equalityI) (simp_all add: xor.assoc)

lemma subarray_parts:
  assumes "length iv = 12" and "length tag = 16"
  shows "subarray (iv @ ct @ tag) 0 (int IV_LENGTH) = iv"
    and "subarray (iv @ ct @ tag) (- int TAG_LENGTH) (int (length (iv @ ct @ tag))) = tag"
    and "subarray (iv @ ct @ tag) (int IV_LENGTH) (- int TAG_LENGTH) = ct"
  using assms by (simp_all add: subarray_def rel_index_def IV_LENGTH_def TAG_LENGTH_def Let_def)

lemma encrypt_body_value:
  "encrypt_body P env rnd token =
     Inr (base64_encode
       (randomBytes rnd 12
        @ gcm_crypt P (getEncryptionKey P env) (randomBytes rnd 12) (utf8_encode token)
        @ getAuthTag P (getEncryptionKey P env) (randomBytes rnd 12)
            (gcm_crypt P (getEncryptionKey P env) (randomBytes rnd 12) (utf8_encode token))))"
proof -
  have "randomBytes rnd 12 \<noteq> []" using length_randomBytes[of rnd 12] by auto
  then show ?thesis
    by (simp add: encrypt_body_def Let_def createCipheriv_def length_key IV_LENGTH_def
        hex_encode_def[of "[]"] hex_roundtrip)
qed
lemma encrypt_value:
  "encrypt P env rnd token =
     base64_encode
       (randomBytes rnd 12
        @ gcm_crypt P (getEncryptionKey P env) (randomBytes rnd 12) (utf8_encode token)
        @ getAuthTag P (getEncryptionKey P env) (randomBytes rnd 12)
            (gcm_crypt P (getEncryptionKey P env) (randomBytes rnd 12) (utf8_encode token)))"
  by (simp add: encrypt_def encrypt_body_value)

lemma base64_decode_encrypt:
  "base64_decode (encrypt P env rnd s) =
     randomBytes rnd 12
     @ gcm_crypt P (getEncryptionKey P env) (randomBytes rnd 12) (utf8_encode s)
     @ getAuthTag P (getEncryptionKey P env) (randomBytes rnd 12)
         (gcm_crypt P (getEncryptionKey P env) (randomBytes rnd 12) (utf8_encode s))"
  by (simp add: encrypt_value base64_roundtrip)

lemma length_base64_decode_encrypt:
  "length (base64_decode (encrypt P env rnd s)) = length (utf8_encode s) + 28"
  by (simp add: base64_decode_encrypt length_randomBytes length_gcm_crypt length_getAuthTag)

lemma decrypt_body_encrypt:
  assumes same: "getEncryptionKey P env' = getEncryptionKey P env"
  shows "decrypt_body P env' (encrypt P env rnd x) = Inr (utf8_decode (utf8_encode x))"
proof -
  let ?key = "getEncryptionKey P env"
  let ?iv = "randomBytes rnd 12"
  let ?ct = "gcm_crypt P ?key ?iv (utf8_encode x)"
  let ?tag = "getAuthTag P ?key ?iv ?ct"
  have iv: "length ?iv = 12" by (rule length_randomBytes)
  have tag: "length ?tag = 16" by (rule length_getAuthTag)
  have ne: "?iv \<noteq> []" using iv by auto
  have comb: "base64_decode (encrypt P env rnd x) = ?iv @ ?ct @ ?tag"
    by (simp add: encrypt_value base64_roundtrip)
  show ?thesis
    unfolding decrypt_body_def Let_def comb subarray_parts[OF iv tag] same
    by (simp add: createDecipheriv_def createCipheriv_def length_key ne setAuthTag_def tag
        decipher_final_def gcm_crypt_twice)
qed

text \<open>The length of what base64 decoding gives.\<close>

lemma length_base64_bytes: "length (base64_bytes ds) \<le> 3 * length ds div 4"
  by (induction ds rule: base64_bytes.induct) simp_all

lemma length_base64_digits: "length (base64_digits s) \<le> length s"
proof -
  have "length (List.map_filter f xs) \<le> length xs" for f :: "16 word \<Rightarrow> nat option" and xs
    by (simp add: List.map_filter_def)
  then have "length (base64_digits s) \<le> length (takeWhile (\<lambda>c. low_byte c \<noteq> 61) s)"
    unfolding base64_digits_def .
  also have "\<dots> \<le> length s" by (rule length_takeWhile_le)
  finally show ?thesis .
qed

lemma length_base64_decode: "length (base64_decode s) \<le> 3 * length s div 4"
proof -
  have "length (base64_decode s) \<le> 3 * length (base64_digits s) div 4"
    unfolding base64_decode_def by (rule length_base64_bytes)
  also have "\<dots> \<le> 3 * length s div 4"
    using length_base64_digits[of s] by (intro div_le_mono) simp
  finally show ?thesis .
qed

lemma isEncrypted_iff: "isEncrypted t \<longleftrightarrow> 29 \<le> length (base64_decode t)"
  by (simp add: isEncrypted_def IV_LENGTH_def TAG_LENGTH_def)

text \<open>
  The base64 decoder reads a code unit by its low byte only: two strings whose code units
  agree in their low bytes decode to the same bytes. So forty times the letter U+0141,
  whose low byte is that of \<^verbatim>\<open>A\<close>, decode to thirty bytes.
\<close>

lemma base64_digits_low_byte:
  "map low_byte s = map low_byte t \<Longrightarrow> base64_digits s = base64_digits t"
proof (induction s arbitrary: t)
  case Nil
  then show ?case by simp
next
  case (Cons c s)
  then obtain d t' where t: "t = d # t'" by (cases t) auto
  with Cons.prems have lb: "low_byte c = low_byte d" and rest: "map low_byte s = map low_byte t'"
    by simp_all
  have u: "unbase64 c = unbase64 d" unfolding unbase64_def lb ..
  have IH: "base64_digits s = base64_digits t'" using Cons.IH[OF rest] .
  have step: "base64_digits (x # xs) =
      (if low_byte x = 61 then [] else (case unbase64 x of None \<Rightarrow> base64_digits xs | Some n \<Rightarrow> n # base64_digits xs))" for x xs
    by (simp add: base64_digits_def List.map_filter_simps split: option.splits)
  show ?case unfolding t step u lb IH ..
qed

lemma base64_decode_low_byte:
  "map low_byte s = map low_byte t \<Longrightarrow> base64_decode s = base64_decode t"
  using base64_digits_low_byte[of s t] by (simp add: base64_decode_def)

lemma base64_digits_replicate_141: "base64_digits (replicate n 0x141) = replicate n 0"
proof -
  have lb: "low_byte (0x141 :: 16 word) = 65" by (simp add: low_byte_def)
  have "unbase64 0x141 = Some 0" unfolding unbase64_def lb by simp
  then show ?thesis using lb
    by (induction n) (simp_all add: base64_digits_def List.map_filter_simps)
qed

lemma length_base64_bytes_groups: "length (base64_bytes (replicate (4 * k) d)) = 3 * k"
proof (induction k)
  case 0
  show ?case by simp
next
  case (Suc k)
  have "replicate (4 * Suc k) d = replicate 4 d @ replicate (4 * k) d"
    by (simp add: replicate_add[symmetric] del: replicate_add)
  also have "replicate 4 d = [d, d, d, d]"
    by (simp add: eval_nat_numeral)
  finally show ?case using Suc by simp
qed

lemma isEncrypted_low_byte_example: "isEncrypted (replicate (4 * 10) 0x141)"
  unfolding isEncrypted_iff base64_decode_def base64_digits_replicate_141
    length_base64_bytes_groups
  by simp

text \<open>A string of ASCII characters has one byte for each character.\<close>

lemma utf8_length_ascii: "\<forall>u\<in>set s. unat u < 0x80 \<Longrightarrow> length (utf8_encode s) = length s"
proof (induction s)
  case Nil
  show ?case by (simp add: utf8_encode_def)
next
  case (Cons u us)
  then have "unat u < 0x80" and IH: "length (utf8_encode us) = length us" by simp_all
  then show ?case by (simp add: utf8_encode_def utf8_bytes_def is_high_def is_low_def)
qed

text \<open>
  In general the UTF-8 form of a string has at least one byte and at most three bytes for
  each code unit, and the UTF-8 form of a string of ASCII characters is the string itself.
\<close>

lemma length_utf8_bytes: "1 \<le> length (utf8_bytes cp) \<and> length (utf8_bytes cp) \<le> 4"
  by (simp add: utf8_bytes_def)

lemma length_utf8_bytes_unit: "cp < 0x10000 \<Longrightarrow> length (utf8_bytes cp) \<le> 3"
  by (simp add: utf8_bytes_def)

lemma length_utf8_bytes_pair: "0x10000 \<le> cp \<Longrightarrow> length (utf8_bytes cp) = 4"
  by (simp add: utf8_bytes_def)

lemma utf8_length_bounds:
  "length s \<le> length (utf8_encode s) \<and> length (utf8_encode s) \<le> 3 * length s"
proof (induction s rule: code_points.induct)
  case 1
  show ?case by (simp add: utf8_encode_def)
next
  case (2 u us)
  have u: "unat u < 0x10000" using unat16_lt[of u] by simp
  show ?case
  proof (cases "is_high u")
    case True
    show ?thesis
    proof (cases us)
      case Nil
      then show ?thesis using True by (simp add: utf8_encode_def utf8_bytes_def)
    next
      case (Cons l r)
      show ?thesis
      proof (cases "is_low l")
        case low: True
        have "length r \<le> length (utf8_encode r) \<and> length (utf8_encode r) \<le> 3 * length r"
          using "2.IH"(1)[OF True Cons low] .
        then show ?thesis using True Cons low
          by (simp add: utf8_encode_def length_utf8_bytes_pair)
      next
        case nolow: False
        have "length us \<le> length (utf8_encode us) \<and> length (utf8_encode us) \<le> 3 * length us"
          using "2.IH"(2)[OF True Cons nolow] .
        then show ?thesis using True Cons nolow
          by (simp add: utf8_encode_def utf8_bytes_def)
      qed
    qed
  next
    case False
    show ?thesis
    proof (cases "is_low u")
      case True
      have "length us \<le> length (utf8_encode us) \<and> length (utf8_encode us) \<le> 3 * length us"
        using "2.IH"(3)[OF False True] .
      then show ?thesis using False True by (simp add: utf8_encode_def utf8_bytes_def)
    next
      case nl: False
      have "length us \<le> length (utf8_encode us) \<and> length (utf8_encode us) \<le> 3 * length us"
        using "2.IH"(4)[OF False nl] .
      then show ?thesis using False nl length_utf8_bytes[of "unat u"] length_utf8_bytes_unit[OF u]
        by (simp add: utf8_encode_def)
    qed
  qed
qed

lemma utf8_encode_ascii:
  "\<forall>u\<in>set s. unat u < 0x80 \<Longrightarrow> utf8_encode s = map (\<lambda>u. of_nat (unat u)) s"
proof (induction s)
  case Nil
  show ?case by (simp add: utf8_encode_def)
next
  case (Cons u us)
  then have "unat u < 0x80" and IH: "utf8_encode us = map (\<lambda>u. of_nat (unat u)) us" by simp_all
  then show ?case by (simp add: utf8_encode_def utf8_bytes_def is_high_def is_low_def)
qed

text \<open>When the \<^verbatim>\<open>try\<close> block of \<^verbatim>\<open>decrypt\<close> throws, and what it returns otherwise.\<close>

lemma decrypt_body_fails:
  fixes P env t
  defines "combined \<equiv> base64_decode t"
  defines "key \<equiv> getEncryptionKey P env"
  defines "iv \<equiv> subarray combined 0 (int IV_LENGTH)"
  defines "authTag \<equiv> subarray combined (- int TAG_LENGTH) (int (length combined))"
  defines "encrypted \<equiv> subarray combined (int IV_LENGTH) (- int TAG_LENGTH)"
  shows "decrypt_body P env t =
    (if iv = [] then Inl InvalidIV
     else if \<not> (length authTag = 4 \<or> length authTag = 8 \<or> (12 \<le> length authTag \<and> length authTag \<le> 16))
       then Inl InvalidAuthTagLength
     else if take (length authTag) (getAuthTag P key iv encrypted) \<noteq> authTag
       then Inl AuthenticationFailed
     else Inr (utf8_decode (gcm_crypt P key iv encrypted)))"
  unfolding decrypt_body_def Let_def combined_def key_def iv_def authTag_def encrypted_def
  by (simp add: createDecipheriv_def createCipheriv_def length_key setAuthTag_def decipher_final_def)

lemma subarray_short:
  "length b < 12 \<Longrightarrow> subarray b 0 (int IV_LENGTH) = b"
  "length b < 12 \<Longrightarrow> subarray b (- int TAG_LENGTH) (int (length b)) = b"
  by (simp_all add: subarray_def rel_index_def IV_LENGTH_def TAG_LENGTH_def Let_def)

text \<open>Concrete runs with the example primitives.\<close>

lemma upt16: "[0..<16] = [0, 1, 2, 3, 4, 5, 6, 7, 8, 9, 10, 11, 12, 13, 14, 15 :: nat]"
  by code_simp

lemma example_tag: "getAuthTag example_primitives key iv [0, 0, 0] = [0, 0, 0, 0, 0, 0, 0, 0, 0, 0, 0, 0, 0, 0, 0, 3]"
  by (simp add: getAuthTag_def word_bytes_def example_primitives_def upt16 drop_bit_eq_div)

lemmas decrypt_eval =
  decrypt_body_def Let_def js_def base64_decode_def base64_digits_def unbase64_def low_byte_def
  List.map_filter_simps subarray_def rel_index_def createDecipheriv_def createCipheriv_def length_key
  IV_LENGTH_def TAG_LENGTH_def setAuthTag_def decipher_final_def example_tag

lemma decrypt_body_bad_base64: "decrypt_body example_primitives None (js ''!!!!'') = Inl InvalidIV"
  by (simp add: decrypt_eval)

lemma decrypt_body_short: "decrypt_body example_primitives None (js ''AAAA'') = Inl InvalidAuthTagLength"
  by (simp add: decrypt_eval)

lemma decrypt_body_bad_tag:
  "decrypt_body example_primitives None (js ''AAAAAAAAAAAAAAAAAAAAAAAAAAAAAAAAAAAAAAAAAA=='')
   = Inl AuthenticationFailed"
  by (simp add: decrypt_eval)

lemma lone_surrogate_replaced:
  "decrypt P env (encrypt P env rnd [0xD800]) = [0xFFFD]"
  by (simp add: decrypt_def decrypt_body_encrypt[OF refl] utf8_decode_def utf8_encode_def
      utf8_bytes_def utf16_units_def is_high_def cont_def)

section \<open>The claims about the cache\<close>

text \<open>
  Claim C3. A \<^verbatim>\<open>get\<close> for a key whose entry has \<^verbatim>\<open>expires < Date.now()\<close> returns the
  miss value \<^verbatim>\<open>null\<close>, counts a miss and deletes the entry: the key is no longer in the map,
  and \<^verbatim>\<open>has\<close> is false for it at every later time.
\<close>

theorem get_expired_miss_and_removed:
  assumes "Map_get (cache c) k = Some e" and "isExpired e now"
  shows "fst (get c now k) = Null
       \<and> misses (snd (get c now k)) = misses c + 1
       \<and> hits (snd (get c now k)) = hits c
       \<and> k \<notin> fst ` set (cache (snd (get c now k)))
       \<and> Map_get (cache (snd (get c now k))) k = None
       \<and> (\<forall>now'. \<not> has (snd (get c now k)) now' k)"
  using assms unfolding get_def has_def
  by (simp add: Map_get_delete keys_Map_delete)

theorem get_expired_miss_and_removed_witness:
  "Map_get (cache example_cache) ''a'' = Some \<lparr>data = Value True, expires = 10, esize = 4\<rparr>
   \<and> isExpired \<lparr>data = Value True, expires = 10, esize = 4\<rparr> 20
   \<and> get example_cache 20 ''a''
       = (Null, \<lparr>cache = [(''b'', \<lparr>data = Value True, expires = 30, esize = 4\<rparr>)], hits = 0, misses = 1\<rparr>)
   \<and> \<not> has (snd (get example_cache 20 ''a'')) 0 ''a''"
  using get_expired_miss_and_removed [of example_cache "''a''" "\<lparr>data = Value True, expires = 10, esize = 4\<rparr>" 20]
  by (simp add: cache_eval example_cache_def)

text \<open>
  Claim C7, as the code has it. \<^verbatim>\<open>has(k)\<close> is true exactly when the map holds an entry
  for \<open>k\<close> that is not expired, which is exactly when \<^verbatim>\<open>get(k)\<close>, on the same state and
  at the same time, takes its hit branch: it counts a hit, not a miss, and returns the data
  of that entry. What \<^verbatim>\<open>get\<close> returns then differs from the \<^verbatim>\<open>null\<close> of a miss unless
  the stored data is itself \<^verbatim>\<open>null\<close>: on a cache that stores no \<^verbatim>\<open>null\<close>, \<^verbatim>\<open>has(k)\<close>
  is true exactly when \<^verbatim>\<open>get(k)\<close> does not return \<^verbatim>\<open>null\<close>.
\<close>

theorem has_iff_live_entry:
  assumes ok: "Map_ok (cache c)"
  shows "(has c now k \<longleftrightarrow> (\<exists>e. (k, e) \<in> set (cache c) \<and> \<not> expires e < now))
       \<and> (has c now k \<longleftrightarrow> hits (snd (get c now k)) = hits c + 1)
       \<and> (has c now k \<longleftrightarrow> misses (snd (get c now k)) = misses c)
       \<and> (\<forall>e. (k, e) \<in> set (cache c) \<and> \<not> expires e < now \<longrightarrow> fst (get c now k) = data e)
       \<and> ((\<forall>p \<in> set (cache c). data (snd p) \<noteq> Null) \<longrightarrow>
            (has c now k \<longleftrightarrow> fst (get c now k) \<noteq> Null))"
proof (cases "Map_get (cache c) k")
  case None
  then have "\<nexists>e. (k, e) \<in> set (cache c)"
    using Map_get_member[OF ok, of k] by simp
  then show ?thesis using None by (simp add: has_def get_def)
next
  case (Some e)
  then have mem: "(k, e') \<in> set (cache c) \<longleftrightarrow> e' = e" for e'
    using Map_get_member[OF ok, of k e'] by auto
  have "data e \<noteq> Null" if "\<forall>p \<in> set (cache c). data (snd p) \<noteq> Null"
    using that mem[of e] by force
  then show ?thesis using Some
    by (simp add: has_def get_def isExpired_def mem)
qed

theorem has_iff_live_entry_witness:
  "Map_ok (cache example_cache)
   \<and> has example_cache 5 ''a''
   \<and> (''a'', \<lparr>data = Value True, expires = 10, esize = 4\<rparr>) \<in> set (cache example_cache)
   \<and> \<not> expires \<lparr>data = Value True, expires = 10, esize = 4\<rparr> < 5
   \<and> get example_cache 5 ''a'' = (Value True, example_cache\<lparr>hits := 1\<rparr>)
   \<and> list_all (\<lambda>p. data (snd p) \<noteq> Null) (cache example_cache)
   \<and> \<not> has example_cache 20 ''a''
   \<and> fst (get example_cache 20 ''a'') = Null"
  using has_iff_live_entry [of example_cache 5 "''a''"] has_iff_live_entry [of example_cache 20 "''a''"]
  by (simp add: cache_eval example_cache_def)

text \<open>
  The claim C7 as it is written fails where \<^verbatim>\<open>null\<close> is stored: the entry of \<open>a\<close> is not
  expired at time 5, \<^verbatim>\<open>has\<close> is true, and \<^verbatim>\<open>get\<close> returns the stored \<^verbatim>\<open>null\<close>, which is
  what it returns for a miss.
\<close>

theorem has_true_get_null:
  "has null_cache 5 ''a'' \<and> fst (get null_cache 5 ''a'') = Null
   \<and> fst (get null_cache 5 ''b'') = Null \<and> \<not> has null_cache 5 ''b''"
  by (simp add: cache_eval null_cache_def)

text \<open>
  Claim C10. When \<^verbatim>\<open>set\<close> returns, no entry of the cache, whatever its key, is expired at
  the time \<open>now'\<close> that \<^verbatim>\<open>cleanup\<close> read.
\<close>

theorem set_sweeps_all_expired:
  "\<forall>p \<in> set (cache (set_item stringify c now now' key d ttl)). \<not> isExpired (snd p) now'"
  unfolding set_item_def Let_def by (blast dest: cleanup_no_expired)

theorem set_sweeps_all_expired_witness:
  "cache (set_item stringify_bool example_cache 20 20 ''c'' (Value True) 60)
     = [(''b'', \<lparr>data = Value True, expires = 30, esize = 4\<rparr>),
        (''c'', \<lparr>data = Value True, expires = 60020, esize = 4\<rparr>)]
   \<and> \<not> isExpired \<lparr>data = Value True, expires = 30, esize = 4\<rparr> 20
   \<and> \<not> isExpired \<lparr>data = Value True, expires = 60020, esize = 4\<rparr> 20"
  using set_sweeps_all_expired [of stringify_bool example_cache 20 20 "''c''" "Value True" 60]
  by (simp add: cache_eval example_cache_def)

text \<open>
  Claim C8, as the code has it. \<^verbatim>\<open>get\<close> counts every call in \<^verbatim>\<open>hits\<close> or \<^verbatim>\<open>misses\<close>,
  so the hit rate that \<^verbatim>\<open>getStats\<close> reports changes. Everything else of the cache is as
  claimed: the map changes only by the deletion of the entry for \<open>k\<close> when that entry is
  expired, the entries of all other keys stay, and the total size and the number of live
  entries that \<^verbatim>\<open>getStats\<close> reports at any time \<open>now2\<close> from the time of the \<^verbatim>\<open>get\<close> on
  are unchanged, whatever the process reports as its heap at the two calls (\<open>mem\<close> and
  \<open>mem'\<close>): the memory usage in the statistics is read from the process and is no part of
  the cache.
\<close>

theorem get_frame:
  assumes "Map_ok (cache c)" and "now \<le> now2"
  shows "(\<forall>k'. k' \<noteq> k \<longrightarrow> Map_get (cache (snd (get c now k))) k' = Map_get (cache c) k')
       \<and> cache (snd (get c now k)) =
           (if (\<exists>e. Map_get (cache c) k = Some e \<and> isExpired e now)
            then Map_delete k (cache c) else cache c)
       \<and> hits (snd (get c now k)) = hits c + (if has c now k then 1 else 0)
       \<and> misses (snd (get c now k)) = misses c + (if has c now k then 0 else 1)
       \<and> total_size (getStats (snd (get c now k)) now2 mem') = total_size (getStats c now2 mem)
       \<and> entries (getStats (snd (get c now k)) now2 mem') = entries (getStats c now2 mem)
       \<and> hitRate (getStats (snd (get c now k)) now2 mem')
           = of_nat (hits c + (if has c now k then 1 else 0)) / of_nat (hits c + misses c + 1)"
proof (cases "Map_get (cache c) k")
  case None
  then show ?thesis by (simp add: get_def has_def getStats_fields live_def)
next
  case (Some e)
  show ?thesis
  proof (cases "isExpired e now")
    case True
    have "filter (\<lambda>entry. \<not> isExpired entry now2) (map snd (Map_delete k (cache c)))
        = filter (\<lambda>entry. \<not> isExpired entry now2) (map snd (cache c))"
      by (rule live_after_delete[OF Some True assms(2,1)])
    then show ?thesis using Some True
      by (simp add: get_def has_def getStats_fields live_def Map_get_delete)
  next
    case False
    then show ?thesis using Some by (simp add: get_def has_def getStats_fields live_def add.assoc)
  qed
qed

theorem get_frame_witness:
  "Map_ok (cache example_cache) \<and> (20::int) \<le> 25
   \<and> Map_get (cache (snd (get example_cache 20 ''a''))) ''b''
       = Some \<lparr>data = Value True, expires = 30, esize = 4\<rparr>
   \<and> cache (snd (get example_cache 20 ''a'')) = Map_delete ''a'' (cache example_cache)
   \<and> total_size (getStats (snd (get example_cache 20 ''a'')) 25 (Some 7)) = 4
   \<and> total_size (getStats example_cache 25 None) = 4
   \<and> entries (getStats (snd (get example_cache 20 ''a'')) 25 (Some 7)) = 1
   \<and> entries (getStats example_cache 25 None) = 1
   \<and> hitRate (getStats (snd (get example_cache 20 ''a'')) 25 (Some 7)) = 0
   \<and> hitRate (getStats (snd (get example_cache 20 ''b'')) 25 (Some 7)) = 1"
  using get_frame [of example_cache 20 25 "''a''" "Some 7" None]
    get_frame [of example_cache 20 25 "''b''" "Some 7" None]
  by (simp add: cache_eval example_cache_def getStats_def)

text \<open>
  The claim C8 as it is written fails: on a cache with the counters at zero that holds a live
  entry, the hit rate is 0 before the \<^verbatim>\<open>get\<close> and 1 after it.
\<close>

theorem get_changes_hitRate:
  "hitRate (getStats example_cache 5 None) = 0
   \<and> hitRate (getStats (snd (get example_cache 5 ''a'')) 5 None) = 1"
  by (simp add: cache_eval example_cache_def getStats_def)

text \<open>
  Claim C2, as the code has it. \<^verbatim>\<open>set(k, v, ttl)\<close> at time \<open>now\<close> followed by
  \<^verbatim>\<open>get(k)\<close> at a time \<open>now2\<close> before \<open>ttl\<close> seconds have elapsed returns \<open>v\<close> and counts a hit, unless
  the capacity eviction inside that \<^verbatim>\<open>set\<close> removed the new entry: more than 1000
  entries were left by the expiry sweep and \<open>k\<close> was among the 100 that \<^verbatim>\<open>cleanup\<close>
  removes. (The keys of the map are pairwise different, as they are in every state that
  the methods reach from the empty cache.)
\<close>

theorem set_then_get_returns_value:
  assumes ok: "Map_ok (cache c)" and mono: "now' \<le> now2" and before: "now2 < now + ttl * 1000"
    and kept: "length (swept stringify c now now' key d ttl) \<le> 1000
             \<or> key \<notin> fst ` set (toRemove (swept stringify c now now' key d ttl))"
  shows "fst (get (set_item stringify c now now' key d ttl) now2 key) = d
       \<and> hits (snd (get (set_item stringify c now now' key d ttl) now2 key))
           = hits (set_item stringify c now now' key d ttl) + 1
       \<and> misses (snd (get (set_item stringify c now now' key d ttl) now2 key))
           = misses (set_item stringify c now now' key d ttl)"
proof -
  let ?e = "\<lparr>data = d, expires = now + ttl * 1000, esize = calculateSize stringify d\<rparr>"
  let ?m1 = "swept stringify c now now' key d ttl"
  let ?c' = "set_item stringify c now now' key d ttl"
  have "(key, ?e) \<in> set (Map_set key ?e (cache c))"
    using Map_get_set[of key ?e "cache c" key] Map_get_member[OF Map_ok_set[OF ok]] by simp
  then have in1: "(key, ?e) \<in> set ?m1"
    using mono before by (simp add: swept_filter[OF ok])
  have "(key, ?e) \<in> set (cache ?c')"
  proof (cases "length ?m1 \<le> 1000")
    case True
    then show ?thesis using in1 by (simp add: set_item_keeps)
  next
    case False
    then have "key \<notin> fst ` set (toRemove ?m1)" using kept by simp
    then show ?thesis using in1 False
      by (simp add: set_item_cache Let_def delete_each_filter)
  qed
  then have "Map_get (cache ?c') key = Some ?e"
    using Map_get_member[OF Map_ok_set_item[OF ok]] by simp
  then show ?thesis using before by (simp add: get_def isExpired_def)
qed

theorem set_then_get_returns_value_witness:
  "Map_ok (cache example_cache) \<and> (20::int) \<le> 25 \<and> (25::int) < 20 + 60 * 1000
   \<and> length (swept stringify_bool example_cache 20 20 ''c'' (Value True) 60) \<le> 1000
   \<and> fst (get (set_item stringify_bool example_cache 20 20 ''c'' (Value True) 60) 25 ''c'') = Value True
   \<and> Map_ok (cache full_cache) \<and> (0::int) \<le> 5 \<and> (5::int) < 0 + 9000 * 1000
   \<and> replicate 1000 CHR ''k''
        \<notin> fst ` set (toRemove (swept stringify_bool full_cache 0 0 (replicate 1000 CHR ''k'') (Value True) 9000))
   \<and> fst (get (set_item stringify_bool full_cache 0 0 (replicate 1000 CHR ''k'') (Value True) 9000) 5
             (replicate 1000 CHR ''k'')) = Value True"
proof -
  have fresh: "replicate 1000 CHR ''k''
        \<notin> fst ` set (toRemove (swept stringify_bool full_cache 0 0 (replicate 1000 CHR ''k'') (Value True) 9000))"
    unfolding toRemove_full_cache_late using key_1000_fresh[of 0] n_fresh
    by (auto simp: filler_def)
  show ?thesis
    using set_then_get_returns_value[of example_cache 20 25 20 60 stringify_bool "''c''" "Value True"]
      set_then_get_returns_value[of full_cache 0 5 0 9000 stringify_bool "replicate 1000 CHR ''k''" "Value True"]
      fresh Map_ok_full_cache
    by (simp add: example_cache_def swept_def Map_ok_def Let_def delete_each_def keysToDelete_def
        Map_delete_def)
qed

text \<open>
  The claim C2 as it is written fails: the cache holds 1000 entries that expire at time
  5000000; a \<^verbatim>\<open>set\<close> at time 0 with a lifetime of one second makes the new entry the
  soonest to expire of 1001, the eviction removes it, and a \<^verbatim>\<open>get\<close> at time 0 misses.
\<close>

theorem set_then_get_miss_when_full:
  "fst (get (set_item stringify_bool full_cache 0 0 (replicate 1000 CHR ''k'') (Value True) 1) 0
          (replicate 1000 CHR ''k'')) = Null"
proof -
  let ?k = "replicate 1000 CHR ''k''"
  let ?e = "\<lparr>data = Value True, expires = 1000, esize = 4\<rparr> :: bool nullable CacheEntry"
  let ?m1 = "swept stringify_bool full_cache 0 0 ?k (Value True) 1"
  let ?c' = "set_item stringify_bool full_cache 0 0 ?k (Value True) 1"
  have ok1: "Map_ok ?m1" by (rule Map_ok_swept[OF Map_ok_full_cache])
  have big: "length ?m1 > 1000" by (simp add: swept_full_cache)
  have res: "cache ?c' = filter (\<lambda>p. p \<notin> set (toRemove ?m1)) ?m1"
    using big delete_entries[OF ok1 set_toRemove] by (simp add: set_item_cache Let_def)
  have "?k \<notin> fst ` set (cache ?c')"
  proof
    assume "?k \<in> fst ` set (cache ?c')"
    then obtain e where e: "(?k, e) \<in> set ?m1" "(?k, e) \<notin> set (toRemove ?m1)"
      unfolding res by auto
    have "(?k, ?e) \<in> set ?m1" by (simp add: swept_full_cache)
    then have "e = ?e"
      using e(1) Map_get_member[OF ok1] by (metis option.inject)
    then show False using e(2) new_entry_evicted by simp
  qed
  then have "Map_get (cache ?c') ?k = None" by (simp add: Map_get_absent)
  then show ?thesis by (simp add: get_def)
qed

text \<open>
  Claim C4, as the code has it. \<^verbatim>\<open>cleanup\<close> compares the size with 1000 after it has
  deleted the expired entries, so the entries it then sorts are all unexpired. With the
  keys of the map pairwise different: if at most 1000 entries are left by the expiry sweep,
  none of them is removed; if more are left, exactly 100 are removed, and each removed entry
  expires no later than each entry that stays. In particular, 1001 calls of \<^verbatim>\<open>set\<close> with
  pairwise different keys on an empty cache, none of the entries expired at any of the
  calls, in whatever order, leave 901 entries, and each of the 100 missing ones expires no
  later than each of those left.
\<close>

theorem set_capacity_eviction:
  fixes c :: "'v CacheManager" and calls :: "'v set_call list"
  assumes ok: "Map_ok (cache c)"
  shows "(\<forall>p \<in> set (swept stringify c now now' key d ttl). \<not> isExpired (snd p) now')
       \<and> (length (swept stringify c now now' key d ttl) \<le> 1000 \<longrightarrow>
            cache (set_item stringify c now now' key d ttl) = swept stringify c now now' key d ttl)
       \<and> (length (swept stringify c now now' key d ttl) > 1000 \<longrightarrow>
            length (cache (set_item stringify c now now' key d ttl))
              = length (swept stringify c now now' key d ttl) - 100
          \<and> set (cache (set_item stringify c now now' key d ttl))
              \<subseteq> set (swept stringify c now now' key d ttl)
          \<and> (\<forall>r \<in> set (swept stringify c now now' key d ttl)
                      - set (cache (set_item stringify c now now' key d ttl)).
              \<forall>s \<in> set (cache (set_item stringify c now now' key d ttl)).
                expires (snd r) \<le> expires (snd s)))
       \<and> (length calls = 1001 \<and> distinct (map call_key calls)
          \<and> (\<forall>a\<in>set calls. \<forall>b\<in>set calls. \<not> (at_insert a + call_ttl a * 1000 < at_cleanup b)) \<longrightarrow>
            length (cache (set_calls stringify new_CacheManager calls)) = 901
          \<and> set (cache (set_calls stringify new_CacheManager calls))
              \<subseteq> set (map (call_entry stringify) calls)
          \<and> (\<forall>r \<in> set (map (call_entry stringify) calls)
                      - set (cache (set_calls stringify new_CacheManager calls)).
              \<forall>s \<in> set (cache (set_calls stringify new_CacheManager calls)).
                expires (snd r) \<le> expires (snd s)))"
proof (intro conjI impI)
  show "\<forall>p \<in> set (swept stringify c now now' key d ttl). \<not> isExpired (snd p) now'"
    by (blast dest: swept_unexpired)
next
  assume "length (swept stringify c now now' key d ttl) \<le> 1000"
  then show "cache (set_item stringify c now now' key d ttl) = swept stringify c now now' key d ttl"
    by (rule set_item_keeps)
next
  assume big: "1000 < length (swept stringify c now now' key d ttl)"
  note E = set_item_evicts[OF ok big]
  show "length (cache (set_item stringify c now now' key d ttl))
          = length (swept stringify c now now' key d ttl) - 100" by (rule E(2))
  show "set (cache (set_item stringify c now now' key d ttl))
          \<subseteq> set (swept stringify c now now' key d ttl)" by (rule E(1))
  show "\<forall>r \<in> set (swept stringify c now now' key d ttl)
                      - set (cache (set_item stringify c now now' key d ttl)).
              \<forall>s \<in> set (cache (set_item stringify c now now' key d ttl)).
                expires (snd r) \<le> expires (snd s)" by (rule E(3))
next
  assume A: "length calls = 1001 \<and> distinct (map call_key calls)
          \<and> (\<forall>a\<in>set calls. \<forall>b\<in>set calls. \<not> (at_insert a + call_ttl a * 1000 < at_cleanup b))"
  have empty: "cache (new_CacheManager :: 'v CacheManager) = []" by (simp add: new_CacheManager_def)
  note I = insert_1001[OF conjunct1[OF A] conjunct1[OF conjunct2[OF A]] conjunct2[OF conjunct2[OF A]] empty]
  show "length (cache (set_calls stringify new_CacheManager calls)) = 901" by (rule I(1))
  show "set (cache (set_calls stringify new_CacheManager calls))
              \<subseteq> set (map (call_entry stringify) calls)" by (rule I(2))
  show "\<forall>r \<in> set (map (call_entry stringify) calls)
                      - set (cache (set_calls stringify new_CacheManager calls)).
              \<forall>s \<in> set (cache (set_calls stringify new_CacheManager calls)).
                expires (snd r) \<le> expires (snd s)" by (rule I(3))
qed

theorem set_capacity_eviction_witness:
  "Map_ok (cache full_cache)
   \<and> length (swept stringify_bool full_cache 0 0 (replicate 1000 CHR ''k'') (Value True) 1) = 1001
   \<and> length (cache (set_item stringify_bool full_cache 0 0 (replicate 1000 CHR ''k'') (Value True) 1)) = 901
   \<and> length (swept stringify_bool example_cache 20 20 ''c'' (Value True) 60) = 2
   \<and> cache (set_item stringify_bool example_cache 20 20 ''c'' (Value True) 60)
       = swept stringify_bool example_cache 20 20 ''c'' (Value True) 60
   \<and> length many_calls = 1001 \<and> distinct (map call_key many_calls)
   \<and> list_all (\<lambda>a. list_all (\<lambda>b. \<not> (at_insert a + call_ttl a * 1000 < at_cleanup b)) many_calls)
        many_calls
   \<and> length (cache (set_calls stringify_bool new_CacheManager many_calls)) = 901"
proof -
  have ok2: "Map_ok (cache example_cache)" by (simp add: example_cache_def Map_ok_def)
  have sw2: "length (swept stringify_bool example_cache 20 20 ''c'' (Value True) 60) = 2"
    by (simp add: example_cache_def swept_def Let_def delete_each_def keysToDelete_def Map_delete_def)
  show ?thesis
    using set_capacity_eviction[OF Map_ok_full_cache, of stringify_bool 0 0 "replicate 1000 CHR ''k''" "Value True" 1 many_calls]
      set_capacity_eviction[OF ok2, of stringify_bool 20 20 "''c''" "Value True" 60 many_calls]
      many_calls_facts Map_ok_full_cache sw2
    by (simp add: swept_full_cache list_all_iff)
qed

text \<open>
  The claim C4 as it is written fails: the cache holds 1000 entries, one of them expired; a
  \<^verbatim>\<open>set\<close> of a new key at time 1000 brings the map to 1001 entries, the sweep deletes the
  expired one, and no other entry is removed: 1000 entries are left, among them the new
  entry, which expires before all the others, and the entry of \<open>k\<close>.
\<close>

theorem sweep_preempts_eviction:
  "length (Map_set ''n'' \<lparr>data = Value True, expires = 11000, esize = 4\<rparr> (cache stale_cache)) = 1001
   \<and> length (cache (set_item stringify_bool stale_cache 1000 1000 ''n'' (Value True) 10)) = 1000
   \<and> Map_get (cache (set_item stringify_bool stale_cache 1000 1000 ''n'' (Value True) 10)) ''n''
       = Some \<lparr>data = Value True, expires = 11000, esize = 4\<rparr>
   \<and> Map_get (cache (set_item stringify_bool stale_cache 1000 1000 ''n'' (Value True) 10)) ''k''
       = Some \<lparr>data = Value True, expires = 5000000, esize = 4\<rparr>"
proof -
  let ?e = "\<lparr>data = Value True, expires = 11000, esize = 4\<rparr> :: bool nullable CacheEntry"
  have fresh: "''n'' \<notin> fst ` set (cache stale_cache)"
    using n_fresh[of 1 1000] by (simp add: stale_cache_def)
  have ins: "Map_set ''n'' ?e (cache stale_cache) = cache stale_cache @ [(''n'', ?e)]"
    by (rule Map_set_fresh[OF fresh])
  have live: "filter (\<lambda>p. \<not> expires (snd p) < 1000) (map filler [1..<1000]) = map filler [1..<1000]"
    by (intro filter_True) (auto simp: filler_def)
  have sw: "swept stringify_bool stale_cache 1000 1000 ''n'' (Value True) 10 = map filler [1..<1000] @ [(''n'', ?e)]"
    unfolding swept_filter[OF Map_ok_stale_cache] size_true
    using ins live by (simp add: stale_cache_def)
  have "length (swept stringify_bool stale_cache 1000 1000 ''n'' (Value True) 10) \<le> 1000"
    unfolding sw by simp
  then have res: "cache (set_item stringify_bool stale_cache 1000 1000 ''n'' (Value True) 10)
           = map filler [1..<1000] @ [(''n'', ?e)]"
    by (simp only: set_item_keeps sw)
  have ok: "Map_ok (cache (set_item stringify_bool stale_cache 1000 1000 ''n'' (Value True) 10))"
    by (rule Map_ok_set_item[OF Map_ok_stale_cache])
  have "(''n'', ?e) \<in> set (cache (set_item stringify_bool stale_cache 1000 1000 ''n'' (Value True) 10))"
    unfolding res by simp
  then have n: "Map_get (cache (set_item stringify_bool stale_cache 1000 1000 ''n'' (Value True) 10)) ''n'' = Some ?e"
    by (simp add: Map_get_member[OF ok])
  have "filler 1 \<in> set (cache (set_item stringify_bool stale_cache 1000 1000 ''n'' (Value True) 10))"
    unfolding res by simp
  then have k: "Map_get (cache (set_item stringify_bool stale_cache 1000 1000 ''n'' (Value True) 10)) ''k''
       = Some \<lparr>data = Value True, expires = 5000000, esize = 4\<rparr>"
    by (simp add: Map_get_member[OF ok] filler_def)
  show ?thesis using res n k unfolding ins by (simp add: stale_cache_def)
qed

section \<open>The claims about the token cipher\<close>

text \<open>
  Claim C1. For every string \<open>x\<close> without a lone surrogate (a string that has a UTF-8
  form), decrypting what \<^verbatim>\<open>encrypt\<close> made of \<open>x\<close> gives \<open>x\<close>, when both calls derive the
  same key: from the same \<^verbatim>\<open>ENCRYPTION_KEY\<close>, or both from the fallback string. This
  holds for every nonce that \<^verbatim>\<open>randomBytes\<close> may give and whatever the hash, the key
  stream and the tag function are.
\<close>

theorem decrypt_encrypt:
  assumes "well_formed x" and "getEncryptionKey P env' = getEncryptionKey P env"
  shows "decrypt P env' (encrypt P env rnd x) = x"
  using assms by (simp add: decrypt_def decrypt_body_encrypt utf8_roundtrip)

theorem decrypt_encrypt_witness:
  "well_formed (js ''figd_abc123'' @ [0xE9, 0xD83D, 0xDE00, 0x20AC])
   \<and> getEncryptionKey example_primitives (Some []) = getEncryptionKey example_primitives None
   \<and> decrypt example_primitives (Some [])
         (encrypt example_primitives None example_rnd (js ''figd_abc123'' @ [0xE9, 0xD83D, 0xDE00, 0x20AC]))
       = js ''figd_abc123'' @ [0xE9, 0xD83D, 0xDE00, 0x20AC]
   \<and> decrypt example_primitives (Some (js ''secret''))
         (encrypt example_primitives (Some (js ''secret'')) example_rnd (js ''figd_abc123''))
       = js ''figd_abc123''"
  using decrypt_encrypt [of "js ''figd_abc123'' @ [0xE9, 0xD83D, 0xDE00, 0x20AC]"
      example_primitives "Some []" None example_rnd]
    decrypt_encrypt [of "js ''figd_abc123''" example_primitives "Some (js ''secret'')"
      "Some (js ''secret'')" example_rnd]
  by (simp add: js_def is_high_def is_low_def getEncryptionKey_def)

text \<open>
  Claim C5. \<^verbatim>\<open>decrypt\<close> is a total function: it always returns a string. Whenever its
  \<^verbatim>\<open>try\<close> block throws, it returns its input unchanged. Base64 decoding itself never
  throws; the block throws when nothing decodes (bad base64: the nonce is empty), when fewer
  than 12 bytes other than 4 or 8 decode (wrong length: the tag has an invalid length), and
  when the tag is not the tag of the ciphertext (bad tag).
\<close>

theorem decrypt_failure_returns_input:
  "(decrypt_body P env t = Inl e \<longrightarrow> decrypt P env t = t)
   \<and> (base64_decode t = [] \<longrightarrow> decrypt P env t = t)
   \<and> (length (base64_decode t) < 12 \<and> length (base64_decode t) \<noteq> 4 \<and> length (base64_decode t) \<noteq> 8
        \<longrightarrow> decrypt P env t = t)
   \<and> (take (length (subarray (base64_decode t) (- int TAG_LENGTH) (int (length (base64_decode t)))))
          (getAuthTag P (getEncryptionKey P env) (subarray (base64_decode t) 0 (int IV_LENGTH))
             (subarray (base64_decode t) (int IV_LENGTH) (- int TAG_LENGTH)))
        \<noteq> subarray (base64_decode t) (- int TAG_LENGTH) (int (length (base64_decode t)))
        \<longrightarrow> decrypt P env t = t)"
proof (intro conjI impI)
  assume "decrypt_body P env t = Inl e"
  then show "decrypt P env t = t" by (simp add: decrypt_def)
next
  assume "base64_decode t = []"
  then have "decrypt_body P env t = Inl InvalidIV"
    by (simp add: decrypt_body_fails subarray_def)
  then show "decrypt P env t = t" by (simp add: decrypt_def)
next
  assume A: "length (base64_decode t) < 12 \<and> length (base64_decode t) \<noteq> 4 \<and> length (base64_decode t) \<noteq> 8"
  then have "\<exists>e. decrypt_body P env t = Inl e"
    by (simp add: decrypt_body_fails subarray_short)
  then show "decrypt P env t = t" by (auto simp: decrypt_def)
next
  assume "take (length (subarray (base64_decode t) (- int TAG_LENGTH) (int (length (base64_decode t)))))
          (getAuthTag P (getEncryptionKey P env) (subarray (base64_decode t) 0 (int IV_LENGTH))
             (subarray (base64_decode t) (int IV_LENGTH) (- int TAG_LENGTH)))
        \<noteq> subarray (base64_decode t) (- int TAG_LENGTH) (int (length (base64_decode t)))"
  then have "\<exists>e. decrypt_body P env t = Inl e"
    by (simp add: decrypt_body_fails)
  then show "decrypt P env t = t" by (auto simp: decrypt_def)
qed

theorem decrypt_failure_returns_input_witness:
  "decrypt_body example_primitives None (js ''!!!!'') = Inl InvalidIV
   \<and> base64_decode (js ''!!!!'') = []
   \<and> decrypt example_primitives None (js ''!!!!'') = js ''!!!!''
   \<and> length (base64_decode (js ''AAAA'')) = 3
   \<and> decrypt example_primitives None (js ''AAAA'') = js ''AAAA''
   \<and> subarray (base64_decode (js ''AAAAAAAAAAAAAAAAAAAAAAAAAAAAAAAAAAAAAAAAAA=='')) (- int TAG_LENGTH) 31
       = [0, 0, 0, 0, 0, 0, 0, 0, 0, 0, 0, 0, 0, 0, 0, 0]
   \<and> getAuthTag example_primitives (getEncryptionKey example_primitives None)
         (subarray (base64_decode (js ''AAAAAAAAAAAAAAAAAAAAAAAAAAAAAAAAAAAAAAAAAA=='')) 0 (int IV_LENGTH))
         (subarray (base64_decode (js ''AAAAAAAAAAAAAAAAAAAAAAAAAAAAAAAAAAAAAAAAAA=='')) (int IV_LENGTH) (- int TAG_LENGTH))
       = [0, 0, 0, 0, 0, 0, 0, 0, 0, 0, 0, 0, 0, 0, 0, 3]
   \<and> decrypt example_primitives None (js ''AAAAAAAAAAAAAAAAAAAAAAAAAAAAAAAAAAAAAAAAAA=='')
       = js ''AAAAAAAAAAAAAAAAAAAAAAAAAAAAAAAAAAAAAAAAAA==''"
proof -
  have a: "subarray (base64_decode (js ''AAAAAAAAAAAAAAAAAAAAAAAAAAAAAAAAAAAAAAAAAA=='')) (- int TAG_LENGTH) 31
       = [0, 0, 0, 0, 0, 0, 0, 0, 0, 0, 0, 0, 0, 0, 0, 0]"
    by (simp add: decrypt_eval)
  have b: "getAuthTag example_primitives (getEncryptionKey example_primitives None)
         (subarray (base64_decode (js ''AAAAAAAAAAAAAAAAAAAAAAAAAAAAAAAAAAAAAAAAAA=='')) 0 (int IV_LENGTH))
         (subarray (base64_decode (js ''AAAAAAAAAAAAAAAAAAAAAAAAAAAAAAAAAAAAAAAAAA=='')) (int IV_LENGTH) (- int TAG_LENGTH))
       = [0, 0, 0, 0, 0, 0, 0, 0, 0, 0, 0, 0, 0, 0, 0, 3]"
    by (simp add: decrypt_eval)
  have c: "base64_decode (js ''!!!!'') = []" "length (base64_decode (js ''AAAA'')) = 3"
    "length (base64_decode (js ''AAAAAAAAAAAAAAAAAAAAAAAAAAAAAAAAAAAAAAAAAA=='')) = 31"
    by (simp_all add: decrypt_eval)
  show ?thesis
    using decrypt_failure_returns_input [of example_primitives None "js ''!!!!''" InvalidIV]
      decrypt_failure_returns_input [of example_primitives None "js ''AAAA''" InvalidIV]
      decrypt_failure_returns_input [of example_primitives None
        "js ''AAAAAAAAAAAAAAAAAAAAAAAAAAAAAAAAAAAAAAAAAA==''" InvalidIV]
      decrypt_body_bad_base64
    by (simp add: a b c)
qed

text \<open>
  Claim C6, as the code has it. For every string \<open>s\<close>, what \<^verbatim>\<open>encrypt\<close> returns decodes from
  base64 to the nonce of 12 bytes, then the ciphertext, then the tag of 16 bytes. The
  ciphertext is as long as the UTF-8 form of \<open>s\<close>, so the whole has the number of bytes of
  the UTF-8 form of \<open>s\<close> plus 28: at least the length of \<open>s\<close> plus 28, at most three times
  the length of \<open>s\<close> plus 28, and the length of \<open>s\<close> plus 28 when every character of \<open>s\<close>
  is ASCII, as in a token.
\<close>

theorem encrypt_layout:
  "base64_decode (encrypt P env rnd s) =
     randomBytes rnd 12
     @ gcm_crypt P (getEncryptionKey P env) (randomBytes rnd 12) (utf8_encode s)
     @ getAuthTag P (getEncryptionKey P env) (randomBytes rnd 12)
         (gcm_crypt P (getEncryptionKey P env) (randomBytes rnd 12) (utf8_encode s))
   \<and> length (randomBytes rnd 12) = 12
   \<and> length (gcm_crypt P (getEncryptionKey P env) (randomBytes rnd 12) (utf8_encode s))
       = length (utf8_encode s)
   \<and> length (getAuthTag P (getEncryptionKey P env) (randomBytes rnd 12)
         (gcm_crypt P (getEncryptionKey P env) (randomBytes rnd 12) (utf8_encode s))) = 16
   \<and> length (base64_decode (encrypt P env rnd s)) = length (utf8_encode s) + 28
   \<and> length s + 28 \<le> length (base64_decode (encrypt P env rnd s))
   \<and> length (base64_decode (encrypt P env rnd s)) \<le> 3 * length s + 28
   \<and> ((\<forall>u\<in>set s. unat u < 0x80) \<longrightarrow>
        utf8_encode s = map (\<lambda>u. of_nat (unat u)) s
        \<and> length (base64_decode (encrypt P env rnd s)) = length s + 28)"
  using utf8_length_bounds[of s] utf8_encode_ascii[of s]
  by (simp add: base64_decode_encrypt length_randomBytes length_gcm_crypt length_getAuthTag)

theorem encrypt_layout_witness:
  "list_all (\<lambda>u. unat u < 0x80) (js ''figd_abc123'')
   \<and> length (js ''figd_abc123'') = 11
   \<and> length (base64_decode (encrypt example_primitives None example_rnd (js ''figd_abc123''))) = 39
   \<and> utf8_encode (js ''figd_abc123'') = [102, 105, 103, 100, 95, 97, 98, 99, 49, 50, 51]"
proof -
  have ascii: "\<forall>u\<in>set (js ''figd_abc123''). unat u < 0x80"
    by (simp add: js_def)
  have "utf8_encode (js ''figd_abc123'') = map (\<lambda>u. of_nat (unat u)) (js ''figd_abc123'')
        \<and> length (base64_decode (encrypt example_primitives None example_rnd (js ''figd_abc123'')))
            = length (js ''figd_abc123'') + 28"
    using encrypt_layout [of example_primitives None example_rnd "js ''figd_abc123''"] ascii
    by blast
  then show ?thesis
    by (simp add: js_def)
qed

text \<open>
  The claim C6 as it is written fails: \<^verbatim>\<open>encrypt\<close> of the string of length one whose only
  character is U+00E9 decodes to 30 bytes, not to 29, because the UTF-8 form of that
  character has two bytes.
\<close>

theorem encrypt_length_not_string_length:
  "length [0xE9 :: 16 word] = 1
   \<and> utf8_encode [0xE9] = [0xC3, 0xA9]
   \<and> length (base64_decode (encrypt example_primitives None example_rnd [0xE9])) = 30
   \<and> length (base64_decode (encrypt example_primitives None example_rnd [0xE9]))
       \<noteq> length [0xE9 :: 16 word] + 28"
  by (simp add: length_base64_decode_encrypt utf8_encode_def utf8_bytes_def is_high_def is_low_def)

text \<open>
  Claim C9, as the code has it. \<^verbatim>\<open>isEncrypted\<close> decodes its argument as base64 and
  returns true exactly when at least 29 bytes come out: the minimum is
  \<^verbatim>\<open>IV_LENGTH + TAG_LENGTH + 1\<close>, one byte more than nonce and tag. So it is true for what
  \<^verbatim>\<open>encrypt\<close> returns on a string that is not empty, and false for every string of fewer
  than 39 characters, base64 or not.
\<close>

theorem isEncrypted_threshold:
  "(isEncrypted t \<longleftrightarrow> 29 \<le> length (base64_decode t))
   \<and> (token \<noteq> [] \<longrightarrow> isEncrypted (encrypt P env rnd token))
   \<and> (length t < 39 \<longrightarrow> \<not> isEncrypted t)"
proof (intro conjI impI)
  show "isEncrypted t \<longleftrightarrow> 29 \<le> length (base64_decode t)"
    by (rule isEncrypted_iff)
  show "isEncrypted (encrypt P env rnd token)" if "token \<noteq> []"
  proof -
    have "length (utf8_encode token) \<ge> 1"
      using utf8_encode_nonempty[OF that] by (cases "utf8_encode token") auto
    then show ?thesis by (simp add: isEncrypted_iff length_base64_decode_encrypt)
  qed
  show "\<not> isEncrypted t" if "length t < 39"
    using length_base64_decode[of t] that by (simp add: isEncrypted_iff)
qed

theorem isEncrypted_threshold_witness:
  "js ''figd_abc123'' \<noteq> []
   \<and> isEncrypted (encrypt example_primitives None example_rnd (js ''figd_abc123''))
   \<and> length (js ''not encrypted'') < 39
   \<and> \<not> isEncrypted (js ''not encrypted'')"
  using isEncrypted_threshold [of "js ''not encrypted''" "js ''figd_abc123''"
      example_primitives None example_rnd]
  by (auto simp: js_def)

text \<open>
  The claim C9 as it is written fails at 28 bytes: a base64 string of 28 zero bytes, and
  what \<^verbatim>\<open>encrypt\<close> returns on the empty string, decode to 28 bytes, and \<^verbatim>\<open>isEncrypted\<close>
  is false for both.
\<close>

theorem isEncrypted_false_at_28:
  "length (base64_decode (js ''AAAAAAAAAAAAAAAAAAAAAAAAAAAAAAAAAAAAAA=='')) = 28
   \<and> \<not> isEncrypted (js ''AAAAAAAAAAAAAAAAAAAAAAAAAAAAAAAAAAAAAA=='')
   \<and> length (base64_decode (encrypt example_primitives None example_rnd [])) = 28
   \<and> \<not> isEncrypted (encrypt example_primitives None example_rnd [])"
proof -
  have "length (base64_decode (js ''AAAAAAAAAAAAAAAAAAAAAAAAAAAAAAAAAAAAAA=='')) = 28"
    by (simp add: js_def base64_decode_def base64_digits_def unbase64_def low_byte_def
        List.map_filter_simps)
  moreover have "length (base64_decode (encrypt example_primitives None example_rnd [])) = 28"
    by (simp add: length_base64_decode_encrypt utf8_encode_def)
  ultimately show ?thesis by (simp add: isEncrypted_iff)
qed

end
